theory Spec2Isabelle
  imports Main "HOL-Library.AList" "HOL-Library.Log_Nat" "HOL-Library.Sublist"
begin

section \<open>Strings of the host language\<close>

text \<open>
  A string is a list of characters; a character stands for a code unit below 256.
  The parser and the generator use a handful of string methods of the host language
  (\<^verbatim>\<open>startsWith\<close>, \<^verbatim>\<open>trim\<close>, \<^verbatim>\<open>slice\<close>, \<^verbatim>\<open>split\<close>, \<^verbatim>\<open>join\<close>); each is given here as a
  function computing what the method returns.
\<close>

definition dq :: char where
  "dq = CHR 0x22"

definition sq :: char where
  "sq = CHR 0x27"

text \<open>White space and line terminators as \<^verbatim>\<open>trim\<close> and the pattern \<^verbatim>\<open>\s\<close> see them
  (tab, line feed, vertical tab, form feed, carriage return, space, no-break space).\<close>

definition is_space :: "char \<Rightarrow> bool" where
  "is_space c = (c \<in> set [CHR 0x09, CHR 0x0A, CHR 0x0B, CHR 0x0C, CHR 0x0D, CHR 0x20, CHR 0xA0])"

definition is_digit :: "char \<Rightarrow> bool" where
  "is_digit c = (c \<in> set ''0123456789'')"

text \<open>The word characters of the pattern \<^verbatim>\<open>\b\<close>: letters, digits and the underscore.\<close>

definition is_word :: "char \<Rightarrow> bool" where
  "is_word c = (c \<in> set
     ''abcdefghijklmnopqrstuvwxyzABCDEFGHIJKLMNOPQRSTUVWXYZ0123456789_'')"

definition js_trim :: "string \<Rightarrow> string" where
  "js_trim s = rev (dropWhile is_space (rev (dropWhile is_space s)))"

definition startsWith :: "string \<Rightarrow> string \<Rightarrow> bool" where
  "startsWith s p = (take (length p) s = p)"

text \<open>\<^verbatim>\<open>s.slice(n)\<close> for a non-negative \<open>n\<close>.\<close>

definition js_slice :: "string \<Rightarrow> nat \<Rightarrow> string" where
  "js_slice s n = drop n s"

text \<open>\<^verbatim>\<open>s.split(sep)\<close> for a separator of one character: the pieces between the
  separators, empty pieces included; the empty string gives one empty piece.\<close>

fun split_acc :: "char \<Rightarrow> string \<Rightarrow> string \<Rightarrow> string list" where
  "split_acc sep cur [] = [cur]"
| "split_acc sep cur (c # cs) =
     (if c = sep then cur # split_acc sep [] cs else split_acc sep (cur @ [c]) cs)"

definition js_split :: "string \<Rightarrow> char \<Rightarrow> string list" where
  "js_split s sep = split_acc sep [] s"

text \<open>\<^verbatim>\<open>s.split(/\s+/)\<close>: the pieces between the maximal runs of white space. A run at
  the very start or the very end leaves an empty piece there, and a string without
  white space (the empty one too) is one piece.\<close>

function split_ws_acc :: "string \<Rightarrow> string \<Rightarrow> string list" where
  "split_ws_acc cur [] = [cur]"
| "split_ws_acc cur (c # cs) =
     (if is_space c then cur # split_ws_acc [] (dropWhile is_space cs)
      else split_ws_acc (cur @ [c]) cs)"
  by pat_completeness auto
termination
  by (relation "measure (\<lambda>(cur, s). length s)")
     (auto simp: le_imp_less_Suc length_dropWhile_le)

definition split_ws :: "string \<Rightarrow> string list" where
  "split_ws s = split_ws_acc [] s"

text \<open>\<^verbatim>\<open>xs.join(sep)\<close>.\<close>

fun js_join :: "string \<Rightarrow> string list \<Rightarrow> string" where
  "js_join sep [] = []"
| "js_join sep [x] = x"
| "js_join sep (x # y # ys) = x @ sep @ js_join sep (y # ys)"

text \<open>Decimal digits: the value of a run of digits, and the decimal text of a natural
  number (what a template literal prints for an index).\<close>

definition digit_val :: "char \<Rightarrow> int" where
  "digit_val c = of_char c - 48"

definition digits_value :: "string \<Rightarrow> int" where
  "digits_value s = foldl (\<lambda>a c. 10 * a + digit_val c) 0 s"

fun nat_to_string :: "nat \<Rightarrow> string" where
  "nat_to_string n =
     (if n < 10 then [char_of (48 + n)]
      else nat_to_string (n div 10) @ [char_of (48 + n mod 10)])"

declare nat_to_string.simps [simp del]

section \<open>Numbers of the host language\<close>

text \<open>
  A number is a binary64 floating-point value. The only numbers the program makes are
  \<^verbatim>\<open>Number(m)\<close> for a match \<open>m\<close> of the numeral pattern, a run of digits with an optional
  fraction: the decimal value rounded to the nearest representable value, ties to the
  even significand, and to infinity from \<open>2^1024 - 2^970\<close> on. A finite value is kept as
  the rational it is exactly.
\<close>

datatype number = Finite rat | Infinity

definition pow2 :: "int \<Rightarrow> rat" where
  "pow2 e = (if 0 \<le> e then 2 ^ nat e else 1 / 2 ^ nat (- e))"

text \<open>For a positive \<open>q\<close>, the exponent \<open>e\<close> with \<open>2^e \<le> q < 2^(e+1)\<close>.\<close>

definition floor_log2 :: "rat \<Rightarrow> int" where
  "floor_log2 q =
     (let (a, b) = quotient_of q; e0 = bitlen a - bitlen b
      in if pow2 e0 \<le> q then e0 else e0 - 1)"

definition round_half_even :: "rat \<Rightarrow> int" where
  "round_half_even x =
     (let f = \<lfloor>x\<rfloor>; d = x - of_int f
      in if d < 1 / 2 then f else if 1 / 2 < d then f + 1
         else if even f then f else f + 1)"

definition to_double :: "rat \<Rightarrow> number" where
  "to_double q =
     (if q = 0 then Finite 0
      else
        let e = floor_log2 q;
            u = max (e - 52) (- 1074);
            m = round_half_even (q / pow2 u);
            v = of_int m * pow2 u
        in if pow2 1024 \<le> v then Infinity else Finite v)"

definition Number :: "string \<Rightarrow> number" where
  "Number s =
     (let ip = takeWhile (\<lambda>c. c \<noteq> CHR ''.'') s;
          fp = drop (length ip + 1) s
      in to_double (of_int (digits_value ip) + of_int (digits_value fp) / 10 ^ length fp))"

section \<open>Objects of the host language\<close>

text \<open>
  A plain object is the list of its own properties in the order they were created.
  Assigning to a property that exists replaces its value in place; assigning to a new
  one appends it. The one name that is not a property of a plain object is
  \<^verbatim>\<open>__proto__\<close>: assigning a string or a number to it changes nothing.

  The keys of an object are enumerated (by \<^verbatim>\<open>Object.assign\<close>, \<^verbatim>\<open>Object.keys\<close> and the
  serialiser) array indices first, in ascending numeric order, then the other keys in
  creation order. An array index is the canonical decimal text of an integer below
  \<open>2^32 - 1\<close>.
\<close>

type_synonym 'v jsobj = "(string \<times> 'v) list"

definition obj_set :: "'v jsobj \<Rightarrow> string \<Rightarrow> 'v \<Rightarrow> 'v jsobj" where
  "obj_set obj k v = (if k = ''__proto__'' then obj else AList.update k v obj)"

definition obj_get :: "'v jsobj \<Rightarrow> string \<Rightarrow> 'v option" where
  "obj_get obj k = map_of obj k"

definition is_array_index :: "string \<Rightarrow> bool" where
  "is_array_index k =
     (k \<noteq> [] \<and> list_all is_digit k \<and> (k = ''0'' \<or> hd k \<noteq> CHR ''0'')
      \<and> digits_value k < 4294967295)"

definition obj_keys :: "'v jsobj \<Rightarrow> string list" where
  "obj_keys obj =
     (let ks = map fst obj
      in sort_key digits_value (filter is_array_index ks)
         @ filter (\<lambda>k. \<not> is_array_index k) ks)"

text \<open>\<^verbatim>\<open>Object.assign(target, src)\<close> copies the properties of \<open>src\<close>, in the order of
  its keys, by assignment; \<^verbatim>\<open>Object.assign({}, ...srcs)\<close> does so for every source in
  turn, starting from the empty object.\<close>

definition obj_assign :: "'v jsobj \<Rightarrow> 'v jsobj \<Rightarrow> 'v jsobj" where
  "obj_assign target src =
     foldl (\<lambda>t k. case map_of src k of Some v \<Rightarrow> obj_set t k v | None \<Rightarrow> t)
       target (obj_keys src)"

definition Object_assign :: "'v jsobj list \<Rightarrow> 'v jsobj" where
  "Object_assign srcs = foldl obj_assign [] srcs"

section \<open>Variable extraction\<close>

datatype jsval = JString string | JNumber number

text \<open>
  \<^verbatim>\<open>step.match(/"([^"]+)"/g)\<close>: at each position from the left, a match is a double
  quote, one or more characters that are not a double quote, and a double quote; the
  search goes on after the match, or one character further when there is none here.
  No match at all (the method's \<^verbatim>\<open>null\<close>) is the empty list.
\<close>

definition match_quoted_at :: "string \<Rightarrow> (string \<times> string) option" where
  "match_quoted_at s =
     (case s of
        [] \<Rightarrow> None
      | c # r \<Rightarrow>
          if c \<noteq> dq then None
          else
            let body = takeWhile (\<lambda>x. x \<noteq> dq) r;
                after = dropWhile (\<lambda>x. x \<noteq> dq) r
            in if body = [] \<or> after = [] then None
               else Some (dq # body @ [dq], tl after))"

lemma match_quoted_at_shorter:
  "match_quoted_at s = Some (m, r) \<Longrightarrow> length r < length s"
proof -
  assume a: "match_quoted_at s = Some (m, r)"
  then obtain c t where s: "s = c # t" by (cases s) (auto simp: match_quoted_at_def)
  from a s have r: "r = tl (dropWhile (\<lambda>x. x \<noteq> dq) t)"
    by (auto simp: match_quoted_at_def Let_def split: if_splits)
  have "length (tl (dropWhile (\<lambda>x. x \<noteq> dq) t)) \<le> length t"
    by (metis diff_le_self le_trans length_dropWhile_le length_tl)
  with r s show ?thesis by simp
qed

function quoted_matches :: "string \<Rightarrow> string list" where
  "quoted_matches [] = []"
| "quoted_matches (c # cs) =
     (case match_quoted_at (c # cs) of
        Some (m, rest) \<Rightarrow> m # quoted_matches rest
      | None \<Rightarrow> quoted_matches cs)"
  by pat_completeness auto
termination
  by (relation "measure length") (auto dest: match_quoted_at_shorter)

text \<open>
  \<^verbatim>\<open>step.match(/\b\d+(\.\d+)?\b/g)\<close>. A match starts at a digit that no word character
  precedes, takes the whole run of digits (a shorter run ends before a digit, where
  neither the fraction nor the word boundary can follow), then the fraction when a dot,
  one or more digits and a word boundary follow, and otherwise ends after the digits
  when a word boundary is there.
\<close>

definition word_end :: "string \<Rightarrow> bool" where
  "word_end r = (case r of [] \<Rightarrow> True | x # _ \<Rightarrow> \<not> is_word x)"

definition match_number_at :: "string \<Rightarrow> (string \<times> string) option" where
  "match_number_at s =
     (let ds = takeWhile is_digit s; r = dropWhile is_digit s
      in if ds = [] then None
         else case r of
           [] \<Rightarrow> Some (ds, [])
         | c # r' \<Rightarrow>
             let fs = takeWhile is_digit r'; r'' = dropWhile is_digit r'
             in if c = CHR ''.'' \<and> fs \<noteq> [] \<and> word_end r'' then Some (ds @ c # fs, r'')
                else if is_word c then None else Some (ds, r))"

lemma match_number_at_shorter:
  "match_number_at s = Some (m, r) \<Longrightarrow> length r < length s"
proof -
  assume a: "match_number_at s = Some (m, r)"
  have ne: "takeWhile is_digit s \<noteq> []"
    using a by (auto simp: match_number_at_def Let_def)
  have l1: "length (dropWhile is_digit s) < length s"
    using ne by (cases s) (auto simp: le_imp_less_Suc length_dropWhile_le split: if_splits)
  show ?thesis
  proof (cases "dropWhile is_digit s")
    case Nil
    with a ne l1 show ?thesis by (auto simp: match_number_at_def Let_def)
  next
    case (Cons c r')
    have "length (dropWhile is_digit r') \<le> length r'" by (rule length_dropWhile_le)
    with Cons l1 have l2: "length (dropWhile is_digit r') < length s" by simp
    from a ne Cons have "r = dropWhile is_digit r' \<or> r = dropWhile is_digit s"
      by (auto simp: match_number_at_def Let_def split: if_splits)
    with l1 l2 show ?thesis by auto
  qed
qed

function number_scan :: "bool \<Rightarrow> string \<Rightarrow> string list" where
  "number_scan prev_word [] = []"
| "number_scan prev_word (c # cs) =
     (if prev_word then number_scan (is_word c) cs
      else case match_number_at (c # cs) of
        Some (m, rest) \<Rightarrow> m # number_scan True rest
      | None \<Rightarrow> number_scan (is_word c) cs)"
  by pat_completeness auto
termination
  by (relation "measure (\<lambda>(p, s). length s)") (auto dest: match_number_at_shorter)

definition number_matches :: "string \<Rightarrow> string list" where
  "number_matches step = number_scan False step"

definition extractVariablesFromStep :: "string \<Rightarrow> jsval jsobj" where
  "extractVariablesFromStep step =
     (let variables = [];
          quotedMatches = quoted_matches step;
          numberMatches = number_matches step;
          variables = foldl (\<lambda>vars (index, m).
              obj_set vars (''key'' @ nat_to_string (index + 1))
                (JString (filter (\<lambda>c. c \<noteq> dq) m)))
            variables (enumerate 0 quotedMatches);
          variables = foldl (\<lambda>vars (index, num).
              obj_set vars (''num'' @ nat_to_string (index + 1)) (JNumber (Number num)))
            variables (enumerate 0 numberMatches)
      in variables)"

section \<open>The document model\<close>

text \<open>
  The four model classes, with the fields and the initial values their declarations
  give (the readme lists the declarations of \<^verbatim>\<open>BackgroundModel\<close> and \<^verbatim>\<open>ScenarioModel\<close>).
  A scenario of the feature is a \<^verbatim>\<open>ScenarioModel\<close> or a \<^verbatim>\<open>ScenarioOutlineModel\<close>: one
  datatype with a constructor for each class, so that \<^verbatim>\<open>instanceof ScenarioOutlineModel\<close>
  is the test \<open>is_ScenarioOutlineModel\<close>. The field \<^verbatim>\<open>steps\<close> of a background is
  \<open>bg_steps\<close> and the field \<^verbatim>\<open>name\<close> of a feature is \<open>feature_name\<close>, the plain names
  being taken by the scenarios.
\<close>

record BackgroundModel =
  bg_steps :: "string list"

datatype ScenarioEntity =
    is_ScenarioModel: ScenarioModel
      (name: string) (steps: "string list") (tags: "string list")
  | is_ScenarioOutlineModel: ScenarioOutlineModel
      (name: string) (steps: "string list") (examples: "string jsobj list")
      (tags: "string list")

record FeatureModel =
  feature_name :: string
  description :: "string list"
  background :: "BackgroundModel option"
  scenarios :: "ScenarioEntity list"

definition new_FeatureModel :: FeatureModel where
  "new_FeatureModel =
     \<lparr>feature_name = [], description = [], background = None, scenarios = []\<rparr>"

section \<open>The parser\<close>

definition STEP_KEYWORDS :: "string list" where
  "STEP_KEYWORDS = [''Given'', ''When'', ''Then'', ''And'', ''But'']"

datatype ParseMode = Mode_none | Mode_background | Mode_scenario | Mode_outline | Mode_rule

definition isStepLine :: "string \<Rightarrow> bool" where
  "isStepLine line = list_ex (\<lambda>keyword. startsWith line keyword) STEP_KEYWORDS"

text \<open>\<^verbatim>\<open>line.split('|').slice(1, -1).map(trim)\<close>: the first and the last piece go.\<close>

definition parseTableRow :: "string \<Rightarrow> string list" where
  "parseTableRow line = map js_trim (butlast (tl (js_split line (CHR ''|''))))"

text \<open>
  The context of a parse. Two of its fields are references into the feature under
  construction, and the parser writes through them:
  \<^item> \<open>currentStepCollector\<close> is the array that receives step lines: the array the
    context was created with (\<open>initial_steps\<close>, which belongs to no model), the step
    array of the feature's background, or the step array of a scenario, named by its
    position in the feature's scenario list;
  \<^item> \<open>currentScenario\<close> is \<^verbatim>\<open>null\<close> or a scenario, named by its position.
  A background is only ever replaced together with the collector, and scenarios are
  only ever appended, so a position keeps naming the object it was taken for. Writing
  through a reference that names nothing is the \<open>TypeError\<close> of the host language.
\<close>

datatype collector = Initial_collector | Background_steps | Scenario_steps nat

record Context =
  feature :: FeatureModel
  currentScenario :: "nat option"
  currentStepCollector :: collector
  initial_steps :: "string list"
  mode :: ParseMode
  headers :: "string list"
  pendingTags :: "string list"
  inDocString :: bool

datatype error = TypeError

definition initial_context :: Context where
  "initial_context =
     \<lparr>feature = new_FeatureModel, currentScenario = None,
      currentStepCollector = Initial_collector, initial_steps = [], mode = Mode_none,
      headers = [], pendingTags = [], inDocString = False\<rparr>"

subsection \<open>The keyword handlers\<close>

definition handle_Feature :: "string \<Rightarrow> Context \<Rightarrow> Context" where
  "handle_Feature line ctx =
     ctx\<lparr>feature := (feature ctx)\<lparr>feature_name := js_trim (js_slice line 8)\<rparr>\<rparr>"

definition handle_Background :: "string \<Rightarrow> Context \<Rightarrow> Context" where
  "handle_Background line ctx =
     ctx\<lparr>feature := (feature ctx)\<lparr>background := Some \<lparr>bg_steps = []\<rparr>\<rparr>,
         currentStepCollector := Background_steps,
         mode := Mode_background\<rparr>"

definition handle_Scenario_Outline :: "string \<Rightarrow> Context \<Rightarrow> Context" where
  "handle_Scenario_Outline line ctx =
     (let outline = ScenarioOutlineModel (js_trim (js_slice line 17)) [] [] (pendingTags ctx);
          position = length (scenarios (feature ctx))
      in ctx\<lparr>pendingTags := [],
             feature := (feature ctx)\<lparr>scenarios := scenarios (feature ctx) @ [outline]\<rparr>,
             currentScenario := Some position,
             currentStepCollector := Scenario_steps position,
             mode := Mode_outline\<rparr>)"

definition handle_Scenario :: "string \<Rightarrow> Context \<Rightarrow> Context" where
  "handle_Scenario line ctx =
     (let scenario = ScenarioModel (js_trim (js_slice line 9)) [] (pendingTags ctx);
          position = length (scenarios (feature ctx))
      in ctx\<lparr>pendingTags := [],
             feature := (feature ctx)\<lparr>scenarios := scenarios (feature ctx) @ [scenario]\<rparr>,
             currentScenario := Some position,
             currentStepCollector := Scenario_steps position,
             mode := Mode_scenario\<rparr>)"

definition handle_Examples :: "string \<Rightarrow> Context \<Rightarrow> Context" where
  "handle_Examples line ctx = ctx\<lparr>headers := []\<rparr>"

definition handle_Rule :: "string \<Rightarrow> Context \<Rightarrow> Context" where
  "handle_Rule line ctx =
     ctx\<lparr>feature := (feature ctx)\<lparr>description :=
           description (feature ctx) @ [''Rule: '' @ js_trim (js_slice line 5)]\<rparr>,
         mode := Mode_rule\<rparr>"

text \<open>The handler table, in the order its keys are declared (and enumerated).\<close>

definition handlers :: "(string \<times> (string \<Rightarrow> Context \<Rightarrow> Context)) list" where
  "handlers =
     [(''Feature:'', handle_Feature),
      (''Background:'', handle_Background),
      (''Scenario Outline:'', handle_Scenario_Outline),
      (''Scenario:'', handle_Scenario),
      (''Examples:'', handle_Examples),
      (''Rule:'', handle_Rule)]"

subsection \<open>Writing through the references\<close>

definition add_step :: "string \<Rightarrow> ScenarioEntity \<Rightarrow> ScenarioEntity" where
  "add_step line e =
     (case e of
        ScenarioModel n s t \<Rightarrow> ScenarioModel n (s @ [line]) t
      | ScenarioOutlineModel n s ex t \<Rightarrow> ScenarioOutlineModel n (s @ [line]) ex t)"

text \<open>\<^verbatim>\<open>ctx.currentStepCollector.push(line)\<close>.\<close>

definition push_step :: "string \<Rightarrow> Context \<Rightarrow> error + Context" where
  "push_step line ctx =
     (case currentStepCollector ctx of
        Initial_collector \<Rightarrow> Inr (ctx\<lparr>initial_steps := initial_steps ctx @ [line]\<rparr>)
      | Background_steps \<Rightarrow>
          (case background (feature ctx) of
             None \<Rightarrow> Inl TypeError
           | Some bg \<Rightarrow>
               Inr (ctx\<lparr>feature := (feature ctx)\<lparr>background :=
                      Some (bg\<lparr>bg_steps := bg_steps bg @ [line]\<rparr>)\<rparr>\<rparr>))
      | Scenario_steps i \<Rightarrow>
          if i < length (scenarios (feature ctx))
          then Inr (ctx\<lparr>feature := (feature ctx)\<lparr>scenarios :=
                      (scenarios (feature ctx))[i := add_step line (scenarios (feature ctx) ! i)]\<rparr>\<rparr>)
          else Inl TypeError)"

text \<open>The row object of a data row: for each header, by position, the cell there, and
  the empty string where the cell is missing (or empty).\<close>

definition make_row :: "string list \<Rightarrow> string list \<Rightarrow> string jsobj" where
  "make_row hs cells =
     foldl (\<lambda>row (i, header).
         obj_set row header (if i < length cells \<and> cells ! i \<noteq> [] then cells ! i else []))
       [] (enumerate 0 hs)"

definition table_row :: "string \<Rightarrow> Context \<Rightarrow> error + Context" where
  "table_row line ctx =
     (let cells = parseTableRow line
      in if length (headers ctx) = 0 then Inr (ctx\<lparr>headers := cells\<rparr>)
         else case currentScenario ctx of
           None \<Rightarrow> Inr ctx
         | Some i \<Rightarrow>
             if i < length (scenarios (feature ctx))
             then (case scenarios (feature ctx) ! i of
                     ScenarioModel n s t \<Rightarrow> Inr ctx
                   | ScenarioOutlineModel n s ex t \<Rightarrow>
                       Inr (ctx\<lparr>feature := (feature ctx)\<lparr>scenarios :=
                              (scenarios (feature ctx))
                                [i := ScenarioOutlineModel n s
                                        (ex @ [make_row (headers ctx) cells]) t]\<rparr>\<rparr>))
             else Inl TypeError)"

subsection \<open>One line, and the pass over all lines\<close>

definition step :: "string \<Rightarrow> Context \<Rightarrow> error + Context" where
  "step line ctx =
     (if startsWith line [dq, dq, dq]
      then push_step line (ctx\<lparr>inDocString := \<not> inDocString ctx\<rparr>)
      else if inDocString ctx then push_step line ctx
      else if startsWith line ''@''
      then Inr (ctx\<lparr>pendingTags := map js_trim (split_ws line)\<rparr>)
      else case find (\<lambda>prefix. startsWith line prefix) (map fst handlers) of
        Some matchedHandler \<Rightarrow>
          (case map_of handlers matchedHandler of
             Some h \<Rightarrow> Inr (h line ctx)
           | None \<Rightarrow> Inl TypeError)
      | None \<Rightarrow>
          if startsWith line ''|'' then table_row line ctx
          else if isStepLine line then push_step line ctx
          else if line \<noteq> [] \<and> mode ctx = Mode_none
          then Inr (ctx\<lparr>feature := (feature ctx)\<lparr>description :=
                      description (feature ctx) @ [line]\<rparr>\<rparr>)
          else Inr ctx)"

fun run :: "string list \<Rightarrow> Context \<Rightarrow> error + Context" where
  "run [] ctx = Inr ctx"
| "run (line # rest) ctx =
     (case step line ctx of Inl e \<Rightarrow> Inl e | Inr ctx' \<Rightarrow> run rest ctx')"

text \<open>The pass over lines that are already trimmed, and the parser on the text of a
  file (reading the file is the caller's).\<close>

definition parse_lines :: "string list \<Rightarrow> error + FeatureModel" where
  "parse_lines ls = map_sum id feature (run ls initial_context)"

definition parseFeature :: "string \<Rightarrow> error + FeatureModel" where
  "parseFeature content = parse_lines (map js_trim (js_split content (CHR 0x0A)))"

section \<open>The generator\<close>

text \<open>
  The serialiser \<^verbatim>\<open>JSON.stringify(v, null, 6)\<close> belongs to the host language; the
  generator takes it as the parameter \<open>stringify\<close>. The lines are joined by line feeds.

  Two reads of the generator go through a value that may be missing, and fail with the
  \<open>TypeError\<close> of the host language when it is: \<^verbatim>\<open>feature.background.steps\<close> when the
  feature has no background, and \<^verbatim>\<open>outline.examples.map(...)\<close> when the scenario is a
  plain scenario, which has no examples. The element read \<^verbatim>\<open>steps[0]\<close> does not fail: it
  gives \<^verbatim>\<open>undefined\<close> on an empty array, which a template literal prints as the word.
\<close>

definition steps_of_background :: "BackgroundModel option \<Rightarrow> error + string list" where
  "steps_of_background bg = (case bg of None \<Rightarrow> Inl TypeError | Some b \<Rightarrow> Inr (bg_steps b))"

definition examples_of :: "ScenarioEntity \<Rightarrow> error + string jsobj list" where
  "examples_of scenario =
     (case scenario of
        ScenarioModel n s t \<Rightarrow> Inl TypeError
      | ScenarioOutlineModel n s ex t \<Rightarrow> Inr ex)"

definition first_element :: "string list \<Rightarrow> string" where
  "first_element xs = (case xs of [] \<Rightarrow> ''undefined'' | x # _ \<Rightarrow> x)"

definition row_value :: "string jsobj \<Rightarrow> jsval jsobj" where
  "row_value example = map (\<lambda>(k, v). (k, JString v)) example"

definition preamble :: "string list" where
  "preamble =
     [''const { mocha } = require('mocha');'',
      ''const { expect } = require('chai');'',
      []]"

definition describe_line :: "FeatureModel \<Rightarrow> string" where
  "describe_line f =
     ''describe('' @ [sq] @ ''Feature: '' @ feature_name f @ [sq] @ '', function () {''"

definition comment_line :: "string \<Rightarrow> string" where
  "comment_line s = ''    // '' @ s"

definition background_lines ::
  "(jsval jsobj \<Rightarrow> string) \<Rightarrow> FeatureModel \<Rightarrow> error + string list" where
  "background_lines stringify f =
     (if background f = None then Inr []
      else case steps_of_background (background f) of
        Inl e \<Rightarrow> Inl e
      | Inr bsteps \<Rightarrow>
          if length bsteps > 0
          then Inr ([''  it('' @ [sq] @ ''Background: '' @ first_element bsteps @ [sq]
                       @ '', async () => {'']
                    @ map comment_line bsteps
                    @ [[],
                       ''    const data = ''
                         @ stringify (Object_assign (map extractVariablesFromStep bsteps))
                         @ '';'',
                       ''  });'',
                       []])
          else Inr [])"

definition scenario_lines ::
  "(jsval jsobj \<Rightarrow> string) \<Rightarrow> ScenarioEntity \<Rightarrow> error + string list" where
  "scenario_lines stringify scenario =
     (let isOutline = is_ScenarioOutlineModel scenario;
          title = (if isOutline then ''Scenario Outline: '' @ name scenario else name scenario)
      in case (if isOutline
               then (case examples_of scenario of
                       Inl e \<Rightarrow> Inl e
                     | Inr exs \<Rightarrow>
                         Inr ([''    const data = ['']
                              @ map (\<lambda>row. ''      '' @ row @ '','')
                                  (map (\<lambda>example. stringify (row_value example)) exs)
                              @ [''    ];'']))
               else Inr [''    const data = ''
                           @ stringify (Object_assign
                               (map extractVariablesFromStep (steps scenario)))
                           @ '';'']) of
           Inl e \<Rightarrow> Inl e
         | Inr data_lines \<Rightarrow>
             Inr ([''  it('' @ [sq] @ title @ [sq] @ '', async () => {'']
                  @ map comment_line (steps scenario)
                  @ [[]]
                  @ data_lines
                  @ [''  });'', []]))"

text \<open>The loop over the scenarios: the first failure ends it.\<close>

fun scenarios_lines ::
  "(jsval jsobj \<Rightarrow> string) \<Rightarrow> ScenarioEntity list \<Rightarrow> error + string list" where
  "scenarios_lines stringify [] = Inr []"
| "scenarios_lines stringify (scenario # rest) =
     (case scenario_lines stringify scenario of
        Inl e \<Rightarrow> Inl e
      | Inr ls \<Rightarrow>
          (case scenarios_lines stringify rest of
             Inl e \<Rightarrow> Inl e
           | Inr more_lines \<Rightarrow> Inr (ls @ more_lines)))"

definition generated_lines ::
  "(jsval jsobj \<Rightarrow> string) \<Rightarrow> FeatureModel \<Rightarrow> error + string list" where
  "generated_lines stringify f =
     (case background_lines stringify f of
        Inl e \<Rightarrow> Inl e
      | Inr bg \<Rightarrow>
          (case scenarios_lines stringify (scenarios f) of
             Inl e \<Rightarrow> Inl e
           | Inr sc \<Rightarrow> Inr (preamble @ [describe_line f] @ bg @ sc @ [''});''])))"

definition generateMochaTests ::
  "(jsval jsobj \<Rightarrow> string) \<Rightarrow> FeatureModel \<Rightarrow> error + string" where
  "generateMochaTests stringify f =
     (case generated_lines stringify f of
        Inl e \<Rightarrow> Inl e
      | Inr ls \<Rightarrow> Inr (js_join [CHR 0x0A] ls))"

section \<open>References stay valid\<close>

lemma startsWith_iff: "startsWith s p \<longleftrightarrow> (\<exists>r. s = p @ r)"
proof
  assume "startsWith s p"
  then have "s = p @ drop (length p) s"
    unfolding startsWith_def by (metis append_take_drop_id)
  then show "\<exists>r. s = p @ r" ..
next
  assume "\<exists>r. s = p @ r"
  then show "startsWith s p" unfolding startsWith_def by auto
qed

fun collector_names :: "bool \<Rightarrow> nat \<Rightarrow> collector \<Rightarrow> bool" where
  "collector_names has_bg n Initial_collector = True"
| "collector_names has_bg n Background_steps = has_bg"
| "collector_names has_bg n (Scenario_steps i) = (i < n)"

fun scenario_names :: "nat \<Rightarrow> nat option \<Rightarrow> bool" where
  "scenario_names n None = True"
| "scenario_names n (Some i) = (i < n)"

definition refs_valid :: "Context \<Rightarrow> bool" where
  "refs_valid ctx =
     (collector_names (background (feature ctx) \<noteq> None) (length (scenarios (feature ctx)))
        (currentStepCollector ctx)
      \<and> scenario_names (length (scenarios (feature ctx))) (currentScenario ctx))"

lemma collector_names_mono: "collector_names b n c \<Longrightarrow> collector_names b (Suc n) c"
  by (cases c) auto

lemma scenario_names_mono: "scenario_names n c \<Longrightarrow> scenario_names (Suc n) c"
  by (cases c) auto

lemma refs_valid_initial: "refs_valid initial_context"
  by (simp add: refs_valid_def initial_context_def)

lemma push_step_valid:
  "refs_valid ctx \<Longrightarrow> \<exists>ctx'. push_step line ctx = Inr ctx' \<and> refs_valid ctx'"
  by (auto simp: refs_valid_def push_step_def split: collector.splits option.splits)

lemma push_step_valid_flag:
  "refs_valid ctx \<Longrightarrow> \<exists>ctx'. push_step line (ctx\<lparr>inDocString := b\<rparr>) = Inr ctx' \<and> refs_valid ctx'"
  by (auto simp: refs_valid_def push_step_def split: collector.splits option.splits)

lemma table_row_valid:
  "refs_valid ctx \<Longrightarrow> \<exists>ctx'. table_row line ctx = Inr ctx' \<and> refs_valid ctx'"
  by (auto simp: refs_valid_def table_row_def Let_def split: collector.splits option.splits ScenarioEntity.splits)

lemma handler_found:
  "find (\<lambda>prefix. startsWith line prefix) (map fst handlers) = Some p \<Longrightarrow>
   \<exists>h. map_of handlers p = Some h \<and> h \<in> {handle_Feature, handle_Background, handle_Scenario_Outline, handle_Scenario, handle_Examples, handle_Rule}"
  by (auto simp: handlers_def split: if_splits)

lemma handlers_valid:
  "refs_valid ctx \<Longrightarrow> h \<in> {handle_Feature, handle_Background, handle_Scenario_Outline, handle_Scenario, handle_Examples, handle_Rule} \<Longrightarrow> refs_valid (h line ctx)"
  by (auto simp: refs_valid_def handle_Feature_def handle_Background_def handle_Scenario_Outline_def handle_Scenario_def handle_Examples_def handle_Rule_def Let_def collector_names_mono scenario_names_mono)

lemma step_valid:
  "refs_valid ctx \<Longrightarrow> \<exists>ctx'. step line ctx = Inr ctx' \<and> refs_valid ctx'"
proof -
  assume v: "refs_valid ctx"
  have tag: "refs_valid (ctx\<lparr>pendingTags := ts\<rparr>)" for ts using v by (simp add: refs_valid_def)
  have desc: "refs_valid (ctx\<lparr>feature := (feature ctx)\<lparr>description := d\<rparr>\<rparr>)" for d
    using v by (simp add: refs_valid_def)
  show ?thesis
    unfolding step_def
    using push_step_valid[OF v] push_step_valid_flag[OF v] table_row_valid[OF v] tag desc v
    by (auto split: option.splits dest!: handler_found intro: handlers_valid)
qed

lemma run_valid:
  "refs_valid ctx \<Longrightarrow> \<exists>ctx'. run ls ctx = Inr ctx' \<and> refs_valid ctx'"
proof (induction ls arbitrary: ctx)
  case Nil
  then show ?case by simp
next
  case (Cons l ls)
  from step_valid[OF Cons.prems] obtain c1 where "step l ctx = Inr c1" "refs_valid c1" by blast
  with Cons.IH[of c1] show ?case by simp
qed

lemma run_append:
  "run (xs @ ys) ctx = (case run xs ctx of Inl e \<Rightarrow> Inl e | Inr c \<Rightarrow> run ys c)"
  by (induction xs arbitrary: ctx) (auto split: sum.splits)

lemma run_from_initial: "\<exists>c. run ls initial_context = Inr c \<and> refs_valid c"
  using run_valid[OF refs_valid_initial] .

section \<open>One line at a time\<close>

lemma startsWith_Cons: "startsWith (c # r) (p # ps) \<longleftrightarrow> c = p \<and> startsWith r ps"
  by (auto simp: startsWith_def)

lemma startsWith_Nil [simp]: "startsWith s []"
  by (simp add: startsWith_def)

lemma startsWith_Nil_left: "startsWith [] (p # ps) = False"
  by (simp add: startsWith_def)

lemmas sw = startsWith_Cons startsWith_Nil_left

lemma find_handler_Scenario:
  assumes "startsWith line ''Scenario:''"
  shows "find (\<lambda>prefix. startsWith line prefix) (map fst handlers) = Some ''Scenario:''"
proof -
  from assms obtain r where "line = ''Scenario:'' @ r" unfolding startsWith_iff ..
  then show ?thesis by (simp add: handlers_def sw)
qed

lemma find_handler_Outline:
  assumes "startsWith line ''Scenario Outline:''"
  shows "find (\<lambda>prefix. startsWith line prefix) (map fst handlers) = Some ''Scenario Outline:''"
proof -
  from assms obtain r where "line = ''Scenario Outline:'' @ r" unfolding startsWith_iff ..
  then show ?thesis by (simp add: handlers_def sw)
qed

lemma not_delimiter: "line = c # r \<Longrightarrow> c \<noteq> dq \<Longrightarrow> \<not> startsWith line [dq, dq, dq]"
  by (simp add: sw)

lemma not_tag: "line = c # r \<Longrightarrow> c \<noteq> CHR ''@'' \<Longrightarrow> \<not> startsWith line ''@''"
  by (simp add: sw)

lemma step_tag:
  assumes "\<not> inDocString ctx" "startsWith line ''@''"
  shows "step line ctx = Inr (ctx\<lparr>pendingTags := map js_trim (split_ws line)\<rparr>)"
proof -
  from assms(2) obtain r where l: "line = CHR ''@'' # r" unfolding startsWith_iff by auto
  have "\<not> startsWith line [dq, dq, dq]" by (rule not_delimiter[OF l]) (simp add: dq_def)
  with assms show ?thesis by (simp add: step_def)
qed

lemma step_handler:
  assumes "\<not> inDocString ctx" "line = c # r" "c \<noteq> dq" "c \<noteq> CHR ''@''"
    "find (\<lambda>prefix. startsWith line prefix) (map fst handlers) = Some p" "map_of handlers p = Some h"
  shows "step line ctx = Inr (h line ctx)"
  using assms not_delimiter[OF assms(2,3)] not_tag[OF assms(2,4)] by (simp add: step_def)

lemma step_Scenario:
  assumes "\<not> inDocString ctx" "startsWith line ''Scenario:''"
  shows "step line ctx = Inr (handle_Scenario line ctx)"
proof -
  from assms(2) obtain r where l: "line = CHR ''S'' # r" unfolding startsWith_iff by auto
  show ?thesis
    by (rule step_handler[OF assms(1) l _ _ find_handler_Scenario[OF assms(2)]])
       (simp_all add: dq_def handlers_def)
qed

lemma step_Outline:
  assumes "\<not> inDocString ctx" "startsWith line ''Scenario Outline:''"
  shows "step line ctx = Inr (handle_Scenario_Outline line ctx)"
proof -
  from assms(2) obtain r where l: "line = CHR ''S'' # r" unfolding startsWith_iff by auto
  show ?thesis
    by (rule step_handler[OF assms(1) l _ _ find_handler_Outline[OF assms(2)]])
       (simp_all add: dq_def handlers_def)
qed

lemma find_handler_None_first:
  "line = c # r \<Longrightarrow> c \<notin> set ''FBSER'' \<Longrightarrow>
   find (\<lambda>prefix. startsWith line prefix) (map fst handlers) = None"
  by (simp add: handlers_def sw)

lemma step_table:
  assumes "\<not> inDocString ctx" "startsWith line ''|''"
  shows "step line ctx = table_row line ctx"
proof -
  from assms(2) obtain r where l: "line = CHR ''|'' # r" unfolding startsWith_iff by auto
  have a: "\<not> startsWith line [dq, dq, dq]" by (rule not_delimiter[OF l]) (simp add: dq_def)
  have b: "\<not> startsWith line ''@''" by (rule not_tag[OF l]) simp
  have c: "find (\<lambda>prefix. startsWith line prefix) (map fst handlers) = None"
    by (rule find_handler_None_first[OF l]) simp
  from a b c assms show ?thesis by (simp add: step_def)
qed


lemma step_plain:
  assumes "line = c # r" "c \<noteq> dq" "c \<noteq> CHR ''@''" "c \<noteq> CHR ''|''"
    "find (\<lambda>prefix. startsWith line prefix) (map fst handlers) = None" "\<not> inDocString ctx"
  shows "step line ctx =
     (if isStepLine line then push_step line ctx
      else if line \<noteq> [] \<and> mode ctx = Mode_none
      then Inr (ctx\<lparr>feature := (feature ctx)\<lparr>description := description (feature ctx) @ [line]\<rparr>\<rparr>)
      else Inr ctx)"
proof -
  have "\<not> startsWith line ''|''" using assms(1,4) by (simp add: sw)
  with assms not_delimiter[OF assms(1,2)] not_tag[OF assms(1,3)] show ?thesis
    by (simp add: step_def)
qed

lemma isStepLine_cases:
  assumes "isStepLine line"
  obtains r where "line = ''Given'' @ r" | r where "line = ''When'' @ r"
    | r where "line = ''Then'' @ r" | r where "line = ''And'' @ r" | r where "line = ''But'' @ r"
  using assms unfolding isStepLine_def STEP_KEYWORDS_def startsWith_iff by auto

lemma stepline_shape:
  assumes "isStepLine line"
  shows "\<exists>c r. line = c # r \<and> c \<noteq> dq \<and> c \<noteq> CHR ''@'' \<and> c \<noteq> CHR ''|''
     \<and> find (\<lambda>prefix. startsWith line prefix) (map fst handlers) = None"
  using assms by (cases rule: isStepLine_cases) (simp_all add: dq_def handlers_def sw)

lemma step_stepline:
  assumes "isStepLine line"
  shows "step line ctx = push_step line ctx"
proof (cases "inDocString ctx")
  case True
  from stepline_shape[OF assms] obtain c r where "line = c # r" "c \<noteq> dq" by blast
  then have "\<not> startsWith line [dq, dq, dq]" by (rule not_delimiter)
  with True show ?thesis by (simp add: step_def)
next
  case False
  from stepline_shape[OF assms] obtain c r where "line = c # r" "c \<noteq> dq" "c \<noteq> CHR ''@''"
    "c \<noteq> CHR ''|''" "find (\<lambda>prefix. startsWith line prefix) (map fst handlers) = None"
    by blast
  from step_plain[OF this False] assms show ?thesis by simp
qed

lemma step_inside:
  "inDocString ctx \<Longrightarrow> \<not> startsWith line [dq, dq, dq] \<Longrightarrow> step line ctx = push_step line ctx"
  by (simp add: step_def)

lemma step_delimiter:
  "startsWith line [dq, dq, dq] \<Longrightarrow>
   step line ctx = push_step line (ctx\<lparr>inDocString := \<not> inDocString ctx\<rparr>)"
  by (simp add: step_def)

subsection \<open>Tokens\<close>

lemma filter_dropWhile_neg: "filter (\<lambda>c. \<not> P c) (dropWhile P xs) = filter (\<lambda>c. \<not> P c) xs"
  by (induction xs) auto

lemma split_ws_acc_concat:
  "concat (split_ws_acc cur s) = cur @ filter (\<lambda>c. \<not> is_space c) s"
  by (induction cur s rule: split_ws_acc.induct) (auto simp: filter_dropWhile_neg)

lemma split_ws_acc_no_space:
  "\<not> list_ex is_space cur \<Longrightarrow> t \<in> set (split_ws_acc cur s) \<Longrightarrow> \<not> list_ex is_space t"
  by (induction cur s rule: split_ws_acc.induct) (auto split: if_splits)

lemma js_trim_no_space: "\<not> list_ex is_space t \<Longrightarrow> js_trim t = t"
proof -
  assume a: "\<not> list_ex is_space t"
  have d: "dropWhile is_space xs = xs" if "\<not> list_ex is_space xs" for xs
    using that by (cases xs) (auto simp: list_ex_iff)
  from a have "\<not> list_ex is_space (rev t)" by (simp add: list_ex_iff)
  with a d show ?thesis by (simp add: js_trim_def)
qed

lemma map_trim_split_ws: "map js_trim (split_ws line) = split_ws line"
  by (rule map_idI) (auto simp: split_ws_def dest!: split_ws_acc_no_space[rotated] intro: js_trim_no_space)

lemma split_ws_acc_nonempty:
  "s \<noteq> [] \<Longrightarrow> \<not> is_space (last s) \<Longrightarrow> cur \<noteq> [] \<or> \<not> is_space (hd s) \<Longrightarrow>
   [] \<notin> set (split_ws_acc cur s)"
proof (induction cur s rule: split_ws_acc.induct)
  case (1 cur)
  then show ?case by simp
next
  case (2 cur c cs)
  show ?case
  proof (cases "is_space c")
    case True
    with "2.prems" have cur: "cur \<noteq> []" and cs: "cs \<noteq> []" by auto
    with "2.prems" have lastcs: "\<not> is_space (last cs)" by simp
    have dne: "dropWhile is_space cs \<noteq> []"
      using cs lastcs by (metis dropWhile_eq_Nil_conv last_in_set)
    have dl: "last (dropWhile is_space cs) = last cs"
      using dne by (metis append_Nil2 last_appendR takeWhile_dropWhile_id)
    have dh: "\<not> is_space (hd (dropWhile is_space cs))"
      using dne by (simp add: hd_dropWhile)
    from "2.IH"(1)[OF True dne] dl lastcs dh have "[] \<notin> set (split_ws_acc [] (dropWhile is_space cs))"
      by simp
    with True cur show ?thesis by simp
  next
    case False
    show ?thesis
    proof (cases "cs = []")
      case True
      with False show ?thesis by simp
    next
      case ne: False
      with "2.prems" have "\<not> is_space (last cs)" by simp
      with "2.IH"(2)[OF False ne] False show ?thesis by simp
    qed
  qed
qed


subsection \<open>Scenarios only grow\<close>

fun extends :: "ScenarioEntity \<Rightarrow> ScenarioEntity \<Rightarrow> bool" where
  "extends (ScenarioModel n s t) (ScenarioModel n' s' t') = (n' = n \<and> t' = t \<and> prefix s s')"
| "extends (ScenarioOutlineModel n s ex t) (ScenarioOutlineModel n' s' ex' t') =
     (n' = n \<and> t' = t \<and> prefix s s' \<and> prefix ex ex')"
| "extends _ _ = False"

definition grows :: "FeatureModel \<Rightarrow> FeatureModel \<Rightarrow> bool" where
  "grows f f' =
     (length (scenarios f) \<le> length (scenarios f')
      \<and> (\<forall>i < length (scenarios f). extends (scenarios f ! i) (scenarios f' ! i)))"

lemma extends_refl [simp]: "extends e e"
  by (cases e) auto

lemma extends_trans: "extends a b \<Longrightarrow> extends b c \<Longrightarrow> extends a c"
  by (cases a; cases b; cases c) auto

lemma extends_add_step [simp]: "extends e (add_step line e)"
  by (cases e) (auto simp: add_step_def)

lemma extends_tags: "extends e e' \<Longrightarrow> tags e' = tags e"
  by (cases e; cases e') auto

lemma extends_name: "extends e e' \<Longrightarrow> name e' = name e"
  by (cases e; cases e') auto

lemma extends_kind: "extends e e' \<Longrightarrow> is_ScenarioOutlineModel e' = is_ScenarioOutlineModel e"
  by (cases e; cases e') auto

lemma extends_steps: "extends e e' \<Longrightarrow> prefix (steps e) (steps e')"
  by (cases e; cases e') auto

lemma extends_examples:
  "extends e e' \<Longrightarrow> is_ScenarioOutlineModel e \<Longrightarrow> prefix (examples e) (examples e')"
  by (cases e; cases e') auto

lemma grows_refl [simp]: "grows f f"
  by (simp add: grows_def)

lemma grows_trans: "grows a b \<Longrightarrow> grows b c \<Longrightarrow> grows a c"
  unfolding grows_def by (meson extends_trans le_trans less_le_trans)

lemma grows_update:
  "extends (scenarios f ! i) e \<Longrightarrow> grows f (f\<lparr>scenarios := (scenarios f)[i := e]\<rparr>)"
proof -
  assume a: "extends (scenarios f ! i) e"
  have "extends (scenarios f ! j) ((scenarios f)[i := e] ! j)" if "j < length (scenarios f)" for j
    using that a by (cases "i = j") auto
  then show ?thesis by (simp add: grows_def)
qed

lemma grows_append: "grows f (f\<lparr>scenarios := scenarios f @ [e]\<rparr>)"
  by (auto simp: grows_def nth_append)

lemma grows_same: "scenarios f' = scenarios f \<Longrightarrow> grows f f'"
  by (simp add: grows_def)

lemma push_step_grows: "push_step line ctx = Inr ctx' \<Longrightarrow> grows (feature ctx) (feature ctx')"
  by (auto simp: push_step_def grows_update grows_same split: collector.splits option.splits if_splits)

lemma table_row_grows: "table_row line ctx = Inr ctx' \<Longrightarrow> grows (feature ctx) (feature ctx')"
  by (auto simp: table_row_def Let_def grows_update split: option.splits if_splits ScenarioEntity.splits)

lemma handlers_grow:
  "h \<in> {handle_Feature, handle_Background, handle_Scenario_Outline, handle_Scenario,
         handle_Examples, handle_Rule} \<Longrightarrow> grows (feature ctx) (feature (h line ctx))"
  by (auto simp: handle_Feature_def handle_Background_def handle_Scenario_Outline_def
      handle_Scenario_def handle_Examples_def handle_Rule_def Let_def grows_append grows_same)

lemma step_grows: "step line ctx = Inr ctx' \<Longrightarrow> grows (feature ctx) (feature ctx')"
  unfolding step_def
  by (auto split: if_splits option.splits dest!: handler_found
      intro: handlers_grow push_step_grows[THEN grows_trans] table_row_grows grows_same
      dest: push_step_grows)

lemma run_grows: "run ls ctx = Inr ctx' \<Longrightarrow> grows (feature ctx) (feature ctx')"
proof (induction ls arbitrary: ctx)
  case Nil
  then show ?case by simp
next
  case (Cons l ls)
  then obtain c1 where s: "step l ctx = Inr c1" and r: "run ls c1 = Inr ctx'"
    by (auto split: sum.splits)
  from step_grows[OF s] Cons.IH[OF r] show ?case by (rule grows_trans)
qed


subsection \<open>Tags\<close>

lemma run_tags:
  "\<not> inDocString c \<Longrightarrow> ts \<noteq> [] \<Longrightarrow> list_all (\<lambda>t. startsWith t ''@'') ts \<Longrightarrow>
   run ts c = Inr (c\<lparr>pendingTags := split_ws (last ts)\<rparr>)"
proof (induction ts arbitrary: c)
  case Nil
  then show ?case by simp
next
  case (Cons t ts)
  then have st: "step t c = Inr (c\<lparr>pendingTags := split_ws t\<rparr>)"
    by (simp add: step_tag map_trim_split_ws)
  show ?case
  proof (cases "ts = []")
    case True
    with st show ?thesis by simp
  next
    case False
    with Cons.IH[of "c\<lparr>pendingTags := split_ws t\<rparr>"] Cons.prems st show ?thesis by simp
  qed
qed

lemma step_scenario_line:
  assumes "\<not> inDocString c" "startsWith l ''Scenario:'' \<or> startsWith l ''Scenario Outline:''"
  shows "\<exists>c' e. step l c = Inr c' \<and> pendingTags c' = [] \<and> \<not> inDocString c'
     \<and> scenarios (feature c') = scenarios (feature c) @ [e] \<and> tags e = pendingTags c
     \<and> (is_ScenarioOutlineModel e \<longleftrightarrow> startsWith l ''Scenario Outline:'')"
proof (cases "startsWith l ''Scenario Outline:''")
  case True
  from step_Outline[OF assms(1) True] True assms(1) show ?thesis
    by (simp add: handle_Scenario_Outline_def Let_def)
next
  case False
  with assms(2) have s: "startsWith l ''Scenario:''" by simp
  from step_Scenario[OF assms(1) s] False assms(1) show ?thesis
    by (simp add: handle_Scenario_def Let_def)
qed

lemma startsWith_shorter: "startsWith m (p @ q) \<Longrightarrow> startsWith m p"
  unfolding startsWith_iff by auto

lemma quiet_handler:
  assumes "find (\<lambda>prefix. startsWith m prefix) (map fst handlers) = Some p"
    and "\<not> startsWith m ''Scenario''"
  shows "\<exists>h. map_of handlers p = Some h
     \<and> h \<in> {handle_Feature, handle_Background, handle_Examples, handle_Rule}"
proof -
  from assms(1) have sp: "startsWith m p" and pin: "p \<in> set (map fst handlers)"
    by (auto simp: find_Some_iff)
  have a: "p \<noteq> ''Scenario:''"
    using sp assms(2) startsWith_shorter[of m "''Scenario''" "'':''"] by auto
  have b: "p \<noteq> ''Scenario Outline:''"
    using sp assms(2) startsWith_shorter[of m "''Scenario''" "'' Outline:''"] by auto
  from pin a b show ?thesis by (auto simp: handlers_def)
qed

lemma step_quiet:
  assumes "\<not> inDocString c" "pendingTags c = []"
    and "\<not> startsWith m ''@''" "\<not> startsWith m [dq, dq, dq]" "\<not> startsWith m ''Scenario''"
    and "step m c = Inr c'"
  shows "\<not> inDocString c' \<and> pendingTags c' = []
     \<and> length (scenarios (feature c')) = length (scenarios (feature c))"
proof (cases "find (\<lambda>prefix. startsWith m prefix) (map fst handlers)")
  case (Some p)
  from quiet_handler[OF Some assms(5)] obtain h where h: "map_of handlers p = Some h"
    "h \<in> {handle_Feature, handle_Background, handle_Examples, handle_Rule}" by blast
  with assms Some have "c' = h m c" by (simp add: step_def)
  with h(2) assms(1,2) show ?thesis
    by (auto simp: handle_Feature_def handle_Background_def handle_Examples_def handle_Rule_def)
next
  case None
  with assms show ?thesis
    by (auto simp: step_def push_step_def table_row_def Let_def
        split: if_splits collector.splits option.splits ScenarioEntity.splits)
qed

lemma run_quiet:
  "\<not> inDocString c \<Longrightarrow> pendingTags c = [] \<Longrightarrow>
   list_all (\<lambda>m. \<not> startsWith m ''@'' \<and> \<not> startsWith m [dq, dq, dq] \<and> \<not> startsWith m ''Scenario'') mid \<Longrightarrow>
   run mid c = Inr c' \<Longrightarrow>
   \<not> inDocString c' \<and> pendingTags c' = []
     \<and> length (scenarios (feature c')) = length (scenarios (feature c))"
proof (induction mid arbitrary: c)
  case Nil
  then show ?case by simp
next
  case (Cons m mid)
  from Cons.prems(4) obtain c1 where s: "step m c = Inr c1" and r: "run mid c1 = Inr c'"
    by (auto split: sum.splits)
  from Cons.prems(3) have m: "\<not> startsWith m ''@''" "\<not> startsWith m [dq, dq, dq]"
    "\<not> startsWith m ''Scenario''" and rest: "list_all (\<lambda>m. \<not> startsWith m ''@'' \<and> \<not> startsWith m [dq, dq, dq] \<and> \<not> startsWith m ''Scenario'') mid"
    by simp_all
  from step_quiet[OF Cons.prems(1,2) m s] have q: "\<not> inDocString c1" "pendingTags c1 = []"
    "length (scenarios (feature c1)) = length (scenarios (feature c))" by simp_all
  from Cons.IH[OF q(1,2) rest r] q(3) show ?case by simp
qed

lemma run_Inr_valid: "refs_valid c \<Longrightarrow> run ls c = Inr c' \<Longrightarrow> refs_valid c'"
  using run_valid[of c ls] by auto

lemma grows_nth:
  "grows f f' \<Longrightarrow> scenarios f = xs @ [e] \<Longrightarrow>
   length xs < length (scenarios f') \<and> tags (scenarios f' ! length xs) = tags e
   \<and> is_ScenarioOutlineModel (scenarios f' ! length xs) = is_ScenarioOutlineModel e"
proof -
  assume g: "grows f f'" and s: "scenarios f = xs @ [e]"
  then have l: "length xs < length (scenarios f)" by simp
  with g have "extends (scenarios f ! length xs) (scenarios f' ! length xs)"
    by (simp add: grows_def)
  with s have "extends e (scenarios f' ! length xs)" by simp
  with g l show ?thesis by (auto simp: grows_def extends_tags extends_kind)
qed


lemma run_append_Inr: "run xs c = Inr c1 \<Longrightarrow> run ys c1 = r \<Longrightarrow> run (xs @ ys) c = r"
  by (simp add: run_append)

lemma run_single: "run [l] c = step l c"
  by (simp split: sum.splits)

lemma parse_lines_split:
  assumes "run xs initial_context = Inr c"
  shows "\<exists>f. parse_lines (xs @ ys) = Inr f \<and> grows (feature c) f"
proof -
  from run_from_initial[of xs] assms have v: "refs_valid c" by simp
  from run_valid[OF v, of ys] obtain c' where r: "run ys c = Inr c'" by blast
  from assms r have "parse_lines (xs @ ys) = Inr (feature c')"
    by (simp add: parse_lines_def run_append)
  with run_grows[OF r] show ?thesis by simp
qed

text \<open>
  Claim C2. For a line that starts with \<open>@\<close> and is read outside a doc-string, the
  parser splits the line on runs of white space and sets the pending-tags buffer to
  exactly that list of tokens: whatever was buffered before is replaced, not extended,
  and nothing else of the context changes, so nothing is appended to the feature, the
  background or any scenario. The tokens are free of white space, together they are the
  line without its white space, and none is empty when the line does not end in white
  space (lines are trimmed before the pass).
\<close>

theorem tag_line_replaces:
  assumes "\<not> inDocString ctx" and "startsWith line ''@''"
  shows "step line ctx = Inr (ctx\<lparr>pendingTags := split_ws line\<rparr>)
     \<and> list_all (\<lambda>t. \<not> list_ex is_space t) (split_ws line)
     \<and> concat (split_ws line) = filter (\<lambda>c. \<not> is_space c) line
     \<and> (is_space (last line) \<or> [] \<notin> set (split_ws line))"
proof -
  from assms obtain r where l: "line = CHR ''@'' # r" unfolding startsWith_iff by auto
  have a: "step line ctx = Inr (ctx\<lparr>pendingTags := split_ws line\<rparr>)"
    using step_tag[OF assms] by (simp add: map_trim_split_ws)
  have b: "list_all (\<lambda>t. \<not> list_ex is_space t) (split_ws line)"
    unfolding list_all_iff split_ws_def using split_ws_acc_no_space[of "[]" _ line] by auto
  have c: "concat (split_ws line) = filter (\<lambda>c. \<not> is_space c) line"
    by (simp add: split_ws_def split_ws_acc_concat)
  have d: "[] \<notin> set (split_ws line)" if "\<not> is_space (last line)"
    unfolding split_ws_def
    by (rule split_ws_acc_nonempty) (use l that in \<open>simp_all add: is_space_def\<close>)
  from a b c d show ?thesis by blast
qed

theorem tag_line_replaces_witness:
  "\<not> inDocString (initial_context\<lparr>pendingTags := [''@old'']\<rparr>)
   \<and> startsWith ''@smoke  @fast'' ''@''
   \<and> step ''@smoke  @fast'' (initial_context\<lparr>pendingTags := [''@old'']\<rparr>)
       = Inr (initial_context\<lparr>pendingTags := [''@smoke'', ''@fast'']\<rparr>)"
proof -
  have h1: "\<not> inDocString (initial_context\<lparr>pendingTags := [''@old'']\<rparr>)"
    by (simp add: initial_context_def)
  have h2: "startsWith ''@smoke  @fast'' ''@''" by (simp add: startsWith_def)
  have t: "split_ws ''@smoke  @fast'' = [''@smoke'', ''@fast'']" by code_simp
  from tag_line_replaces[OF h1 h2] h1 h2 t show ?thesis by simp
qed

text \<open>
  Claim C1, as amended. A run of one or more tag lines read outside a doc-string and
  immediately followed by a \<open>Scenario:\<close> or \<open>Scenario Outline:\<close> line gives the scenario
  made for that line the tokens of the last tag line of the run (each tag line
  replaces the buffer), in the feature the parser returns whatever follows; right after
  that line the pending-tags buffer is empty, and the next scenario line, when no tag
  line, no doc-string delimiter and no other scenario line stands in between, makes a
  scenario with no tags.
\<close>

theorem tag_flush_last_line:
  assumes pre: "run pre initial_context = Inr c" and out: "\<not> inDocString c"
    and n: "n = length (scenarios (feature c))"
    and ts: "ts \<noteq> []" "list_all (\<lambda>t. startsWith t ''@'') ts"
    and l: "startsWith l ''Scenario:'' \<or> startsWith l ''Scenario Outline:''"
    and mid: "list_all (\<lambda>m. \<not> startsWith m ''@'' \<and> \<not> startsWith m [dq, dq, dq]
                  \<and> \<not> startsWith m ''Scenario'') mid"
    and l2: "startsWith l2 ''Scenario:'' \<or> startsWith l2 ''Scenario Outline:''"
  shows "\<exists>c' f f2.
      run (pre @ ts @ [l]) initial_context = Inr c' \<and> pendingTags c' = []
      \<and> parse_lines (pre @ ts @ l # rest) = Inr f
      \<and> n < length (scenarios f)
      \<and> tags (scenarios f ! n) = split_ws (last ts)
      \<and> (is_ScenarioOutlineModel (scenarios f ! n) \<longleftrightarrow> startsWith l ''Scenario Outline:'')
      \<and> parse_lines (pre @ ts @ l # mid @ l2 # rest) = Inr f2
      \<and> Suc n < length (scenarios f2)
      \<and> tags (scenarios f2 ! n) = split_ws (last ts)
      \<and> tags (scenarios f2 ! Suc n) = []"
proof -
  let ?c1 = "c\<lparr>pendingTags := split_ws (last ts)\<rparr>"
  have r1: "run ts c = Inr ?c1" by (rule run_tags[OF out ts])
  have out1: "\<not> inDocString ?c1" using out by simp
  from step_scenario_line[OF out1 l] obtain c2 e where
    s2: "step l ?c1 = Inr c2" and p2: "pendingTags c2 = []" and d2: "\<not> inDocString c2"
    and sc2: "scenarios (feature c2) = scenarios (feature c) @ [e]"
    and te: "tags e = split_ws (last ts)"
    and ke: "is_ScenarioOutlineModel e \<longleftrightarrow> startsWith l ''Scenario Outline:''"
    by auto
  have "run [l] ?c1 = Inr c2" using s2 by (simp add: run_single)
  then have "run (ts @ [l]) c = Inr c2" by (rule run_append_Inr[OF r1])
  then have run2: "run (pre @ ts @ [l]) initial_context = Inr c2"
    by (rule run_append_Inr[OF pre])
  \<comment> \<open>the rest of the input\<close>
  from parse_lines_split[OF run2, of rest] obtain f3 where
    f: "parse_lines ((pre @ ts @ [l]) @ rest) = Inr f3"
    and g3: "grows (feature c2) f3" by (elim exE conjE)
  from grows_nth[OF g3 sc2] n te ke
  have A: "n < length (scenarios f3)"
    "tags (scenarios f3 ! n) = split_ws (last ts)"
    "is_ScenarioOutlineModel (scenarios f3 ! n) \<longleftrightarrow> startsWith l ''Scenario Outline:''"
    by simp_all
  \<comment> \<open>a later scenario without tag lines\<close>
  from run_from_initial[of "pre @ ts @ [l]"] run2 have v2: "refs_valid c2" by simp
  from run_valid[OF v2, of mid] obtain c4 where r4: "run mid c2 = Inr c4" by auto
  from run_quiet[OF d2 p2 mid r4] have q4: "\<not> inDocString c4" "pendingTags c4 = []"
    "length (scenarios (feature c4)) = length (scenarios (feature c2))" by simp_all
  from step_scenario_line[OF q4(1) l2] obtain c5 e2 where
    s5: "step l2 c4 = Inr c5" and sc5: "scenarios (feature c5) = scenarios (feature c4) @ [e2]"
    and te2: "tags e2 = pendingTags c4" by auto
  have "run [l2] c4 = Inr c5" using s5 by (simp add: run_single)
  then have "run (mid @ [l2]) c2 = Inr c5" by (rule run_append_Inr[OF r4])
  then have run5: "run ((pre @ ts @ [l]) @ mid @ [l2]) initial_context = Inr c5"
    by (rule run_append_Inr[OF run2])
  from parse_lines_split[OF run5, of rest] obtain f6 where
    f2: "parse_lines (((pre @ ts @ [l]) @ mid @ [l2]) @ rest) = Inr f6"
    and g6: "grows (feature c5) f6" by (elim exE conjE)
  have len4: "length (scenarios (feature c4)) = Suc n" using q4(3) sc2 n by simp
  from grows_nth[OF g6 sc5] len4 te2 q4(2)
  have B: "Suc n < length (scenarios f6)" "tags (scenarios f6 ! Suc n) = []"
    by simp_all
  have g26: "grows (feature c2) f6"
  proof -
    have "grows (feature c2) (feature c4)" by (rule run_grows[OF r4])
    moreover have "grows (feature c4) (feature c5)" by (rule step_grows[OF s5])
    ultimately show ?thesis using g6 by (meson grows_trans)
  qed
  from grows_nth[OF g26 sc2] n te
  have C: "tags (scenarios f6 ! n) = split_ws (last ts)" by simp
  from run2 p2 f A f2 B C show ?thesis by auto
qed


theorem tag_flush_last_line_witness:
  "\<exists>f2. parse_lines [''@a'', ''@b'', ''Scenario: s'', ''Given x'', ''Scenario Outline: t''] = Inr f2
     \<and> tags (scenarios f2 ! 0) = [''@b''] \<and> tags (scenarios f2 ! Suc 0) = []"
proof -
  have pre: "run [] initial_context = Inr initial_context" by simp
  have out: "\<not> inDocString initial_context" by (simp add: initial_context_def)
  have n: "0 = length (scenarios (feature initial_context))"
    by (simp add: initial_context_def new_FeatureModel_def)
  have ts: "[''@a'', ''@b''] \<noteq> []" "list_all (\<lambda>t. startsWith t ''@'') [''@a'', ''@b'']"
    by (simp_all add: startsWith_def)
  have l: "startsWith ''Scenario: s'' ''Scenario:'' \<or> startsWith ''Scenario: s'' ''Scenario Outline:''"
    by (simp add: startsWith_def)
  have mid: "list_all (\<lambda>m. \<not> startsWith m ''@'' \<and> \<not> startsWith m [dq, dq, dq]
                  \<and> \<not> startsWith m ''Scenario'') [''Given x'']"
    by (simp add: startsWith_def dq_def)
  have l2: "startsWith ''Scenario Outline: t'' ''Scenario:''
      \<or> startsWith ''Scenario Outline: t'' ''Scenario Outline:''"
    by (simp add: startsWith_def)
  have t: "split_ws ''@b'' = [''@b'']" by code_simp
  from tag_flush_last_line[OF pre out n ts l mid l2, of "[]"] t show ?thesis by auto
qed

text \<open>The claim as stated fails for two tag lines: the scenario gets the tokens of the
  second line only, not the concatenation.\<close>

theorem tag_flush_counterexample:
  "map_sum id (map tags \<circ> scenarios) (parse_lines [''@a'', ''@b'', ''Scenario: s'']) = Inr [[''@b'']]
   \<and> split_ws ''@a'' @ split_ws ''@b'' = [''@a'', ''@b'']"
  by code_simp

section \<open>Example tables\<close>

subsection \<open>Row objects\<close>

definition cell_at :: "string list \<Rightarrow> nat \<Rightarrow> string" where
  "cell_at cells i = (if i < length cells then cells ! i else [])"

lemma cell_at_eq: "(if i < length cells \<and> cells ! i \<noteq> [] then cells ! i else []) = cell_at cells i"
  by (simp add: cell_at_def)

lemma update_fresh: "k \<notin> fst ` set al \<Longrightarrow> AList.update k v al = al @ [(k, v)]"
  by (induction al) auto

lemma obj_set_keys: "fst ` set (obj_set obj k v) = fst ` set obj \<union> ({k} - {''__proto__''})"
  by (auto simp: obj_set_def dom_update)

lemma fold_row_keys:
  "fst ` set (foldl (\<lambda>row (i, header). obj_set row header (g i)) row (enumerate n hs))
     = fst ` set row \<union> (set hs - {''__proto__''})"
proof (induction hs arbitrary: row n)
  case Nil
  then show ?case by simp
next
  case (Cons h hs)
  show ?case by (simp add: Cons.IH obj_set_keys) blast
qed

lemma fold_row_distinct:
  "distinct (map fst row @ hs) \<Longrightarrow> ''__proto__'' \<notin> set hs \<Longrightarrow>
   foldl (\<lambda>row (i, header). obj_set row header (g i)) row (enumerate n hs)
     = row @ map (\<lambda>(i, header). (header, g i)) (enumerate n hs)"
proof (induction hs arbitrary: row n)
  case Nil
  then show ?case by simp
next
  case (Cons h hs)
  from Cons.prems have fresh: "h \<notin> fst ` set row" and np: "h \<noteq> ''__proto__''" by auto
  then have s: "obj_set row h (g n) = row @ [(h, g n)]"
    by (simp add: obj_set_def update_fresh)
  from Cons.prems have d: "distinct (map fst (row @ [(h, g n)]) @ hs)" by auto
  from Cons.prems have p: "''__proto__'' \<notin> set hs" by simp
  show ?case using Cons.IH[OF d p, of "Suc n"] s by simp
qed

lemma make_row_keys_set: "fst ` set (make_row hs cells) = set hs - {''__proto__''}"
  unfolding make_row_def using fold_row_keys[of _ "[]" 0 hs] by simp

lemma make_row_distinct:
  assumes "distinct hs" "''__proto__'' \<notin> set hs"
  shows "make_row hs cells = zip hs (map (cell_at cells) [0..<length hs])"
proof -
  have "make_row hs cells = map (\<lambda>(i, header). (header, cell_at cells i)) (enumerate 0 hs)"
    unfolding make_row_def cell_at_eq using fold_row_distinct[of "[]" hs _ 0] assms by simp
  also have "\<dots> = zip hs (map (cell_at cells) [0..<length hs])"
    by (simp add: enumerate_eq_zip zip_map2 zip_commute[of hs] zip_map1 case_prod_unfold)
  finally show ?thesis .
qed

lemma obj_keys_set: "set (obj_keys obj) = fst ` set obj"
  by (auto simp: obj_keys_def Let_def)

lemma obj_keys_plain: "\<not> list_ex is_array_index (map fst obj) \<Longrightarrow> obj_keys obj = map fst obj"
proof -
  assume a: "\<not> list_ex is_array_index (map fst obj)"
  then have 1: "filter is_array_index (map fst obj) = []"
    by (auto simp: list_ex_iff filter_empty_conv)
  from a have 2: "filter (\<lambda>k. \<not> is_array_index k) (map fst obj) = map fst obj"
    by (auto simp: list_ex_iff filter_id_conv)
  from 1 2 show ?thesis by (simp add: obj_keys_def Let_def)
qed

lemma make_row_facts:
  "set (obj_keys (make_row hs cells)) = set hs - {''__proto__''}
   \<and> (distinct hs \<and> ''__proto__'' \<notin> set hs \<and> \<not> list_ex is_array_index hs \<longrightarrow>
        obj_keys (make_row hs cells) = hs
        \<and> (\<forall>j < length hs. obj_get (make_row hs cells) (hs ! j)
              = Some (if j < length cells then cells ! j else [])))"
proof -
  have A: "set (obj_keys (make_row hs cells)) = set hs - {''__proto__''}"
    by (simp add: obj_keys_set make_row_keys_set)
  have B: "obj_keys (make_row hs cells) = hs
        \<and> (\<forall>j < length hs. obj_get (make_row hs cells) (hs ! j)
              = Some (if j < length cells then cells ! j else []))"
    if d: "distinct hs" and p: "''__proto__'' \<notin> set hs" and a: "\<not> list_ex is_array_index hs"
  proof -
    have m: "make_row hs cells = zip hs (map (cell_at cells) [0..<length hs])"
      by (rule make_row_distinct[OF d p])
    have k: "map fst (make_row hs cells) = hs" by (simp add: m)
    have "obj_keys (make_row hs cells) = hs" using obj_keys_plain[of "make_row hs cells"] k a by simp
    moreover have "obj_get (make_row hs cells) (hs ! j) = Some (if j < length cells then cells ! j else [])"
      if "j < length hs" for j
      unfolding obj_get_def m using that d
      by (subst map_of_zip_nth) (simp_all add: cell_at_def)
    ultimately show ?thesis by simp
  qed
  from A B show ?thesis by blast
qed


lemma obj_set_get: "map_of (obj_set obj k v) k' =
   (if k' = k \<and> k \<noteq> ''__proto__'' then Some v else map_of obj k')"
  by (simp add: obj_set_def update_conv')

lemma fold_row_get_other:
  "k \<notin> set hs \<Longrightarrow>
   map_of (foldl (\<lambda>row (i, header). obj_set row header (g i)) row (enumerate n hs)) k
     = map_of row k"
  by (induction hs arbitrary: row n) (auto simp: obj_set_get)

lemma fold_row_get_from:
  "j < length hs \<Longrightarrow> hs ! j = k \<Longrightarrow> k \<noteq> ''__proto__'' \<Longrightarrow>
   (\<forall>j'. j \<le> j' \<and> j' < length hs \<longrightarrow> g (n + j') = v) \<Longrightarrow>
   map_of (foldl (\<lambda>row (i, header). obj_set row header (g i)) row (enumerate n hs)) k = Some v"
proof (induction hs arbitrary: row n j)
  case Nil
  then show ?case by simp
next
  case (Cons h hs)
  show ?case
  proof (cases j)
    case 0
    with Cons.prems have hk: "h = k" by simp
    show ?thesis
    proof (cases "k \<in> set hs")
      case True
      then obtain j2 where j2: "j2 < length hs" "hs ! j2 = k" by (auto simp: in_set_conv_nth)
      have "\<forall>j'. j2 \<le> j' \<and> j' < length hs \<longrightarrow> g (Suc n + j') = v"
        using Cons.prems(4) 0 by auto
      from Cons.IH[OF j2 Cons.prems(3) this] show ?thesis by simp
    next
      case False
      from Cons.prems(4) 0 have "g n = v" by auto
      with False hk Cons.prems(3) show ?thesis
        by (simp add: fold_row_get_other obj_set_get)
    qed
  next
    case (Suc j0)
    with Cons.prems have a: "j0 < length hs" "hs ! j0 = k" by simp_all
    have "\<forall>j'. j0 \<le> j' \<and> j' < length hs \<longrightarrow> g (Suc n + j') = v"
      using Cons.prems(4) Suc by auto
    from Cons.IH[OF a Cons.prems(3) this] show ?thesis by simp
  qed
qed

lemma make_row_missing:
  assumes "j < length hs" "length cells \<le> j" "hs ! j \<noteq> ''__proto__''"
  shows "obj_get (make_row hs cells) (hs ! j) = Some []"
  unfolding obj_get_def make_row_def cell_at_eq
  by (rule fold_row_get_from[OF assms(1) refl assms(3)]) (use assms(2) in \<open>simp add: cell_at_def\<close>)

subsection \<open>Where the rows of an outline come from\<close>

lemma add_step_kind [simp]: "is_ScenarioOutlineModel (add_step l e) = is_ScenarioOutlineModel e"
  by (cases e) (simp_all add: add_step_def)

lemma add_step_examples [simp]:
  "is_ScenarioOutlineModel e \<Longrightarrow> examples (add_step l e) = examples e"
  by (cases e) (simp_all add: add_step_def)

definition same_rows :: "FeatureModel \<Rightarrow> FeatureModel \<Rightarrow> nat \<Rightarrow> bool" where
  "same_rows f f' i =
     (i < length (scenarios f) \<and> is_ScenarioOutlineModel (scenarios f ! i)
      \<and> examples (scenarios f' ! i) = examples (scenarios f ! i))"

lemma same_rows_update:
  "i < length (scenarios f) \<Longrightarrow> is_ScenarioOutlineModel ((scenarios f)[k := add_step l (scenarios f ! k)] ! i) \<Longrightarrow>
   same_rows f (f\<lparr>scenarios := (scenarios f)[k := add_step l (scenarios f ! k)]\<rparr>) i"
  by (cases "k = i") (auto simp: same_rows_def)

lemma push_step_rows:
  assumes "push_step l c = Inr c'" "i < length (scenarios (feature c'))"
    "is_ScenarioOutlineModel (scenarios (feature c') ! i)"
  shows "same_rows (feature c) (feature c') i"
  using assms
  by (auto simp: push_step_def same_rows_update split: collector.splits option.splits if_splits)
     (auto simp: same_rows_def)

lemma handlers_rows:
  assumes "h \<in> {handle_Feature, handle_Background, handle_Scenario_Outline, handle_Scenario,
         handle_Examples, handle_Rule}" "i < length (scenarios (feature (h l c)))"
    "is_ScenarioOutlineModel (scenarios (feature (h l c)) ! i)"
  shows "same_rows (feature c) (feature (h l c)) i \<or> examples (scenarios (feature (h l c)) ! i) = []"
  using assms
  by (auto simp: handle_Feature_def handle_Background_def handle_Scenario_Outline_def
      handle_Scenario_def handle_Examples_def handle_Rule_def Let_def same_rows_def nth_append
      split: if_splits)

lemma table_row_rows:
  assumes "table_row l c = Inr c'" "i < length (scenarios (feature c'))"
    "is_ScenarioOutlineModel (scenarios (feature c') ! i)"
  shows "same_rows (feature c) (feature c') i
     \<or> (headers c \<noteq> [] \<and> currentScenario c = Some i \<and> i < length (scenarios (feature c))
        \<and> examples (scenarios (feature c') ! i)
            = examples (scenarios (feature c) ! i) @ [make_row (headers c) (parseTableRow l)])"
proof (cases "headers c = []")
  case True
  with assms show ?thesis by (auto simp: table_row_def same_rows_def)
next
  case False
  show ?thesis
  proof (cases "currentScenario c")
    case None
    with False assms show ?thesis by (auto simp: table_row_def same_rows_def)
  next
    case (Some k)
    with False assms have k: "k < length (scenarios (feature c))"
      by (auto simp: table_row_def Let_def split: if_splits)
    show ?thesis
    proof (cases "scenarios (feature c) ! k")
      case (ScenarioModel n s t)
      with False Some k assms show ?thesis by (auto simp: table_row_def same_rows_def)
    next
      case (ScenarioOutlineModel n s ex t)
      with False Some k assms show ?thesis
        by (cases "k = i") (auto simp: table_row_def same_rows_def)
    qed
  qed
qed


lemma same_rows_same:
  "scenarios f' = scenarios f \<Longrightarrow> i < length (scenarios f') \<Longrightarrow>
   is_ScenarioOutlineModel (scenarios f' ! i) \<Longrightarrow> same_rows f f' i"
  by (simp add: same_rows_def)

lemma step_rows:
  assumes s: "step l c = Inr c'" and i: "i < length (scenarios (feature c'))"
    and o: "is_ScenarioOutlineModel (scenarios (feature c') ! i)"
  shows "same_rows (feature c) (feature c') i
     \<or> examples (scenarios (feature c') ! i) = []
     \<or> (\<not> inDocString c \<and> startsWith l ''|'' \<and> headers c \<noteq> [] \<and> currentScenario c = Some i
        \<and> i < length (scenarios (feature c))
        \<and> examples (scenarios (feature c') ! i)
            = examples (scenarios (feature c) ! i) @ [make_row (headers c) (parseTableRow l)])"
proof (cases "startsWith l [dq, dq, dq]")
  case True
  with s have "push_step l (c\<lparr>inDocString := \<not> inDocString c\<rparr>) = Inr c'" by (simp add: step_def)
  from push_step_rows[OF this i o] show ?thesis by simp
next
  case nd: False
  show ?thesis
  proof (cases "inDocString c")
    case True
    with nd s have "push_step l c = Inr c'" by (simp add: step_def)
    from push_step_rows[OF this i o] show ?thesis by simp
  next
    case out: False
    show ?thesis
    proof (cases "startsWith l ''@''")
      case True
      with nd out s have "feature c' = feature c" by (auto simp: step_def)
      with i o show ?thesis by (simp add: same_rows_same)
    next
      case nt: False
      show ?thesis
      proof (cases "find (\<lambda>prefix. startsWith l prefix) (map fst handlers)")
        case (Some p)
        from handler_found[OF Some] obtain h where h: "map_of handlers p = Some h"
          "h \<in> {handle_Feature, handle_Background, handle_Scenario_Outline, handle_Scenario,
                handle_Examples, handle_Rule}" by blast
        with nd out nt Some s have "c' = h l c" by (simp add: step_def)
        with handlers_rows[OF h(2), of i l c] i o show ?thesis by blast
      next
        case None
        show ?thesis
        proof (cases "startsWith l ''|''")
          case True
          with nd out nt None s have "table_row l c = Inr c'" by (simp add: step_def)
          from table_row_rows[OF this i o] out True show ?thesis by auto
        next
          case np: False
          show ?thesis
          proof (cases "isStepLine l")
            case True
            with nd out nt None np s have "push_step l c = Inr c'" by (simp add: step_def)
            from push_step_rows[OF this i o] show ?thesis by simp
          next
            case False
            with nd out nt None np s have "scenarios (feature c') = scenarios (feature c)"
              by (auto simp: step_def split: if_splits)
            with i o show ?thesis by (simp add: same_rows_same)
          qed
        qed
      qed
    qed
  qed
qed

lemma rows_provenance:
  "run ls initial_context = Inr c' \<Longrightarrow> i < length (scenarios (feature c')) \<Longrightarrow>
   is_ScenarioOutlineModel (scenarios (feature c') ! i) \<Longrightarrow>
   j < length (examples (scenarios (feature c') ! i)) \<Longrightarrow>
   \<exists>pre l rest c. ls = pre @ l # rest \<and> run pre initial_context = Inr c
     \<and> \<not> inDocString c \<and> startsWith l ''|'' \<and> headers c \<noteq> [] \<and> currentScenario c = Some i
     \<and> examples (scenarios (feature c') ! i) ! j = make_row (headers c) (parseTableRow l)"
proof (induction ls arbitrary: c' j rule: rev_induct)
  case Nil
  then show ?case by (auto simp: initial_context_def new_FeatureModel_def)
next
  case (snoc l ls)
  from snoc.prems(1) obtain c0 where r0: "run ls initial_context = Inr c0"
    and s: "step l c0 = Inr c'"
    by (auto simp: run_append split: sum.splits)
  have old: ?case
    if sr: "i < length (scenarios (feature c0))" "is_ScenarioOutlineModel (scenarios (feature c0) ! i)"
      and jj: "j < length (examples (scenarios (feature c0) ! i))"
      and eq: "examples (scenarios (feature c') ! i) ! j = examples (scenarios (feature c0) ! i) ! j"
  proof -
    from snoc.IH[OF r0 sr jj] obtain pre l0 rest c where
      "ls = pre @ l0 # rest" "run pre initial_context = Inr c" "\<not> inDocString c"
      "startsWith l0 ''|''" "headers c \<noteq> []" "currentScenario c = Some i"
      "examples (scenarios (feature c0) ! i) ! j = make_row (headers c) (parseTableRow l0)"
      by blast
    with eq have "ls @ [l] = pre @ l0 # (rest @ [l]) \<and> run pre initial_context = Inr c
      \<and> \<not> inDocString c \<and> startsWith l0 ''|'' \<and> headers c \<noteq> [] \<and> currentScenario c = Some i
      \<and> examples (scenarios (feature c') ! i) ! j = make_row (headers c) (parseTableRow l0)"
      by simp
    then show ?thesis by blast
  qed
  from step_rows[OF s snoc.prems(2,3)] consider
      (same) "same_rows (feature c0) (feature c') i"
    | (empty) "examples (scenarios (feature c') ! i) = []"
    | (new) "\<not> inDocString c0" "startsWith l ''|''" "headers c0 \<noteq> []" "currentScenario c0 = Some i"
        "i < length (scenarios (feature c0))"
        "examples (scenarios (feature c') ! i)
            = examples (scenarios (feature c0) ! i) @ [make_row (headers c0) (parseTableRow l)]"
    by blast
  then show ?case
  proof cases
    case same
    with snoc.prems(4) show ?thesis by (intro old) (simp_all add: same_rows_def)
  next
    case empty
    with snoc.prems(4) show ?thesis by simp
  next
    case new
    show ?thesis
    proof (cases "j < length (examples (scenarios (feature c0) ! i))")
      case True
      have k: "is_ScenarioOutlineModel (scenarios (feature c0) ! i)"
        using step_grows[OF s] new(5) snoc.prems(3) by (auto simp: grows_def extends_kind)
      from True new(6) have "examples (scenarios (feature c') ! i) ! j
          = examples (scenarios (feature c0) ! i) ! j" by (simp add: nth_append)
      with new(5) k True show ?thesis by (intro old)
    next
      case False
      with snoc.prems(4) new(6) have "j = length (examples (scenarios (feature c0) ! i))" by simp
      with new(6) have "examples (scenarios (feature c') ! i) ! j
          = make_row (headers c0) (parseTableRow l)" by simp
      with r0 new have "ls @ [l] = ls @ l # [] \<and> run ls initial_context = Inr c0
        \<and> \<not> inDocString c0 \<and> startsWith l ''|'' \<and> headers c0 \<noteq> [] \<and> currentScenario c0 = Some i
        \<and> examples (scenarios (feature c') ! i) ! j = make_row (headers c0) (parseTableRow l)"
        by simp
      then show ?thesis by blast
    qed
  qed
qed


text \<open>
  Claim C3, as amended. In the feature the parser returns, every example row of every
  scenario outline was made from a table line read outside a doc-string while a
  non-empty header row was buffered and that outline was the current scenario. The keys
  of the row are exactly the cells of that header row other than \<^verbatim>\<open>__proto__\<close>. A header
  that has no cell in the data row (a missing trailing column) has the empty string as
  its value. When the header cells are distinct and none of them is \<^verbatim>\<open>__proto__\<close> or an
  array index, the keys are enumerated in the order the header declares them, and the
  value at each header is the cell at its position, or the empty string.
\<close>

theorem example_rows_follow_header:
  assumes "parse_lines ls = Inr f" and "i < length (scenarios f)"
    and "is_ScenarioOutlineModel (scenarios f ! i)"
    and "j < length (examples (scenarios f ! i))"
  shows "\<exists>pre l rest c hs cells row.
      ls = pre @ l # rest \<and> run pre initial_context = Inr c
      \<and> \<not> inDocString c \<and> startsWith l ''|'' \<and> currentScenario c = Some i
      \<and> hs = headers c \<and> hs \<noteq> [] \<and> cells = parseTableRow l
      \<and> row = examples (scenarios f ! i) ! j \<and> row = make_row hs cells
      \<and> set (obj_keys row) = set hs - {''__proto__''}
      \<and> (\<forall>k < length hs. length cells \<le> k \<and> hs ! k \<noteq> ''__proto__''
            \<longrightarrow> obj_get row (hs ! k) = Some [])
      \<and> (distinct hs \<and> ''__proto__'' \<notin> set hs \<and> \<not> list_ex is_array_index hs \<longrightarrow>
            obj_keys row = hs
            \<and> (\<forall>k < length hs. obj_get row (hs ! k)
                  = Some (if k < length cells then cells ! k else [])))"
proof -
  from assms(1) obtain c' where r: "run ls initial_context = Inr c'" and f: "f = feature c'"
    by (cases "run ls initial_context") (auto simp: parse_lines_def)
  from rows_provenance[OF r] assms(2-4) f obtain pre l rest c where p:
    "ls = pre @ l # rest" "run pre initial_context = Inr c" "\<not> inDocString c"
    "startsWith l ''|''" "headers c \<noteq> []" "currentScenario c = Some i"
    "examples (scenarios f ! i) ! j = make_row (headers c) (parseTableRow l)"
    by blast
  have m: "\<forall>k < length (headers c). length (parseTableRow l) \<le> k \<and> headers c ! k \<noteq> ''__proto__''
      \<longrightarrow> obj_get (make_row (headers c) (parseTableRow l)) (headers c ! k) = Some []"
    by (simp add: make_row_missing)
  from p m make_row_facts[of "headers c" "parseTableRow l"] show ?thesis by metis
qed

theorem example_rows_follow_header_witness:
  "parse_lines [''Scenario Outline: o'', ''Examples:'', ''| a | b |'', ''| x |'']
     = Inr \<lparr>feature_name = [], description = [], background = None,
            scenarios = [ScenarioOutlineModel ''o'' [] [[(''a'', ''x''), (''b'', [])]] []]\<rparr>
   \<and> (\<exists>pre l rest c.
        [''Scenario Outline: o'', ''Examples:'', ''| a | b |'', ''| x |''] = pre @ l # rest
        \<and> run pre initial_context = Inr c \<and> headers c \<noteq> []
        \<and> [(''a'', ''x''), (''b'', [])] = make_row (headers c) (parseTableRow l)
        \<and> set (obj_keys (make_row (headers c) (parseTableRow l))) = set (headers c) - {''__proto__''})"
proof -
  let ?L = "[''Scenario Outline: o'', ''Examples:'', ''| a | b |'', ''| x |'']"
  let ?F = "\<lparr>feature_name = [], description = [], background = None,
            scenarios = [ScenarioOutlineModel ''o'' [] [[(''a'', ''x''), (''b'', [])]] []]\<rparr>"
  have h1: "parse_lines ?L = Inr ?F" by code_simp
  have h2: "0 < length (scenarios ?F)" by simp
  have h3: "is_ScenarioOutlineModel (scenarios ?F ! 0)" by simp
  have h4: "0 < length (examples (scenarios ?F ! 0))" by simp
  from example_rows_follow_header[OF h1 h2 h3 h4] obtain pre l rest c where
    a: "?L = pre @ l # rest" "run pre initial_context = Inr c" "headers c \<noteq> []"
    and b: "examples (scenarios ?F ! 0) ! 0 = make_row (headers c) (parseTableRow l)"
    and k: "set (obj_keys (make_row (headers c) (parseTableRow l))) = set (headers c) - {''__proto__''}"
    by (elim exE conjE) simp
  from b have "[(''a'', ''x''), (''b'', [])] = make_row (headers c) (parseTableRow l)" by simp
  with a k have "?L = pre @ l # rest
        \<and> run pre initial_context = Inr c \<and> headers c \<noteq> []
        \<and> [(''a'', ''x''), (''b'', [])] = make_row (headers c) (parseTableRow l)
        \<and> set (obj_keys (make_row (headers c) (parseTableRow l))) = set (headers c) - {''__proto__''}"
    by simp
  then have "\<exists>pre l rest c. ?L = pre @ l # rest
        \<and> run pre initial_context = Inr c \<and> headers c \<noteq> []
        \<and> [(''a'', ''x''), (''b'', [])] = make_row (headers c) (parseTableRow l)
        \<and> set (obj_keys (make_row (headers c) (parseTableRow l))) = set (headers c) - {''__proto__''}"
    by blast
  with h1 show ?thesis by (intro conjI)
qed

text \<open>The claim as stated fails for headers that are array indices: the row object
  enumerates them in ascending numeric order, not in the header's order.\<close>

theorem example_rows_counterexample:
  "map_sum id (\<lambda>f. map obj_keys (examples (scenarios f ! 0)))
     (parse_lines [''Scenario Outline: o'', ''Examples:'', ''| 2 | 1 |'', ''| a | b |''])
     = Inr [[''1'', ''2'']]
   \<and> parseTableRow ''| 2 | 1 |'' = [''2'', ''1'']"
  by code_simp

section \<open>Doc-strings, early steps and totality of the pass\<close>

subsection \<open>Doc-strings\<close>

text \<open>What the current collector holds, read through the reference.\<close>

definition collector_contents :: "Context \<Rightarrow> string list option" where
  "collector_contents ctx =
     (case currentStepCollector ctx of
        Initial_collector \<Rightarrow> Some (initial_steps ctx)
      | Background_steps \<Rightarrow> map_option bg_steps (background (feature ctx))
      | Scenario_steps i \<Rightarrow>
          if i < length (scenarios (feature ctx))
          then Some (steps (scenarios (feature ctx) ! i)) else None)"

text \<open>Pushing a list of lines to the current collector, and nothing else.\<close>

fun push_all :: "string list \<Rightarrow> Context \<Rightarrow> error + Context" where
  "push_all [] ctx = Inr ctx"
| "push_all (line # rest) ctx =
     (case push_step line ctx of Inl e \<Rightarrow> Inl e | Inr ctx' \<Rightarrow> push_all rest ctx')"

lemma steps_add_step [simp]: "steps (add_step l e) = steps e @ [l]"
  by (cases e) (simp_all add: add_step_def)

lemma push_step_flag:
  "push_step l (c\<lparr>inDocString := b\<rparr>) = map_sum id (\<lambda>x. x\<lparr>inDocString := b\<rparr>) (push_step l c)"
  by (simp add: push_step_def split: collector.splits option.splits)

lemma push_step_keeps:
  "push_step l c = Inr c' \<Longrightarrow>
   inDocString c' = inDocString c \<and> currentStepCollector c' = currentStepCollector c"
  by (auto simp: push_step_def split: collector.splits option.splits if_splits)

lemma push_step_contents:
  "push_step l c = Inr c' \<Longrightarrow> collector_contents c = Some old \<Longrightarrow>
   collector_contents c' = Some (old @ [l])"
  by (auto simp: push_step_def collector_contents_def split: collector.splits option.splits if_splits)

lemma contents_valid: "refs_valid c \<Longrightarrow> \<exists>old. collector_contents c = Some old"
  by (cases "currentStepCollector c") (auto simp: refs_valid_def collector_contents_def)

lemma push_all_flag:
  "push_all ls (c\<lparr>inDocString := b\<rparr>) = map_sum id (\<lambda>x. x\<lparr>inDocString := b\<rparr>) (push_all ls c)"
proof (induction ls arbitrary: c)
  case Nil
  then show ?case by simp
next
  case (Cons l ls)
  show ?case
  proof (cases "push_step l c")
    case (Inl e)
    then show ?thesis by (simp add: push_step_flag)
  next
    case (Inr c1)
    then show ?thesis by (simp add: push_step_flag Cons.IH)
  qed
qed

lemma push_all_append:
  "push_all (xs @ ys) c = (case push_all xs c of Inl e \<Rightarrow> Inl e | Inr c1 \<Rightarrow> push_all ys c1)"
  by (induction xs arbitrary: c) (auto split: sum.splits)

lemma push_all_keeps:
  "push_all ls c = Inr c' \<Longrightarrow>
   inDocString c' = inDocString c \<and> currentStepCollector c' = currentStepCollector c"
proof (induction ls arbitrary: c)
  case Nil
  then show ?case by simp
next
  case (Cons l ls)
  then obtain c1 where a: "push_step l c = Inr c1" and b: "push_all ls c1 = Inr c'"
    by (auto split: sum.splits)
  from push_step_keeps[OF a] Cons.IH[OF b] show ?case by simp
qed

lemma push_all_contents:
  "push_all ls c = Inr c' \<Longrightarrow> collector_contents c = Some old \<Longrightarrow>
   collector_contents c' = Some (old @ ls)"
proof (induction ls arbitrary: c old)
  case Nil
  then show ?case by simp
next
  case (Cons l ls)
  then obtain c1 where a: "push_step l c = Inr c1" and b: "push_all ls c1 = Inr c'"
    by (auto split: sum.splits)
  from Cons.IH[OF b push_step_contents[OF a Cons.prems(2)]] show ?case by simp
qed

lemma push_all_valid: "refs_valid c \<Longrightarrow> \<exists>c'. push_all ls c = Inr c' \<and> refs_valid c'"
proof (induction ls arbitrary: c)
  case Nil
  then show ?case by simp
next
  case (Cons l ls)
  from push_step_valid[OF Cons.prems] obtain c1 where "push_step l c = Inr c1" "refs_valid c1"
    by blast
  with Cons.IH[of c1] show ?case by simp
qed

lemma run_inside:
  "inDocString c \<Longrightarrow> list_all (\<lambda>l. \<not> startsWith l [dq, dq, dq]) inner \<Longrightarrow>
   run inner c = push_all inner c"
proof (induction inner arbitrary: c)
  case Nil
  then show ?case by simp
next
  case (Cons l ls)
  then have s: "step l c = push_step l c" by (simp add: step_inside)
  show ?case
  proof (cases "push_step l c")
    case (Inl e)
    with s show ?thesis by simp
  next
    case (Inr c1)
    with push_step_keeps[OF Inr] Cons.prems have "inDocString c1" by simp
    with Cons.IH[of c1] Cons.prems s Inr show ?thesis by simp
  qed
qed

lemma run_doc_string:
  assumes v: "refs_valid c" and out: "\<not> inDocString c"
    and o: "startsWith opening [dq, dq, dq]"
    and i: "list_all (\<lambda>l. \<not> startsWith l [dq, dq, dq]) inner"
    and cl: "startsWith closing [dq, dq, dq]"
  shows "\<exists>c'. run (opening # inner @ [closing]) c = Inr c'
     \<and> push_all (opening # inner @ [closing]) c = Inr c'"
proof -
  from push_step_valid[OF v] obtain d1 where d1: "push_step opening c = Inr d1" "refs_valid d1"
    by blast
  from push_all_valid[OF d1(2)] obtain d where d: "push_all inner d1 = Inr d" "refs_valid d"
    by blast
  from push_step_valid[OF d(2)] obtain e where e: "push_step closing d = Inr e" by blast
  have fd1: "inDocString d1 = False" using push_step_keeps[OF d1(1)] out by simp
  have fd: "inDocString d = False" using push_all_keeps[OF d(1)] fd1 by simp
  have fe: "inDocString e = False" using push_step_keeps[OF e] fd by simp
  have s1: "step opening c = Inr (d1\<lparr>inDocString := True\<rparr>)"
    using o out d1(1) by (simp add: step_delimiter push_step_flag)
  have s2: "run inner (d1\<lparr>inDocString := True\<rparr>) = Inr (d\<lparr>inDocString := True\<rparr>)"
    using run_inside[OF _ i, of "d1\<lparr>inDocString := True\<rparr>"] d(1) by (simp add: push_all_flag)
  have s3: "step closing (d\<lparr>inDocString := True\<rparr>) = Inr e"
  proof -
    have "step closing (d\<lparr>inDocString := True\<rparr>) = Inr (e\<lparr>inDocString := False\<rparr>)"
      using cl e by (simp add: step_delimiter push_step_flag)
    moreover have "e\<lparr>inDocString := False\<rparr> = e" using fe by simp
    ultimately show ?thesis by simp
  qed
  have r: "run (opening # inner @ [closing]) c = Inr e"
    using s1 s2 s3 by (simp add: run_append)
  have p: "push_all (opening # inner @ [closing]) c = Inr e"
    using d1(1) d(1) e by (simp add: push_all_append)
  from r p show ?thesis by simp
qed

text \<open>
  Claim C6. After any lines that leave the parser outside a doc-string, an opening
  delimiter line (one that starts with three double quotes), any inner lines that are
  not delimiter lines, and a closing delimiter line are all pushed, the delimiters
  included, verbatim and in order, to the step collector that was current at the
  opening delimiter, whatever the inner lines start with (a section keyword, a step
  keyword, a tag marker or a pipe). The pass does nothing else on these lines: the
  context after them is the context before them with these pushes, the collector is the
  same, and the parser is outside the doc-string again.
\<close>

theorem doc_string_captured:
  assumes "run pre initial_context = Inr c" and "\<not> inDocString c"
    and "startsWith opening [dq, dq, dq]"
    and "list_all (\<lambda>l. \<not> startsWith l [dq, dq, dq]) inner"
    and "startsWith closing [dq, dq, dq]"
  shows "\<exists>c' old.
      run (pre @ opening # inner @ [closing]) initial_context = Inr c'
      \<and> push_all (opening # inner @ [closing]) c = Inr c'
      \<and> collector_contents c = Some old
      \<and> collector_contents c' = Some (old @ opening # inner @ [closing])
      \<and> currentStepCollector c' = currentStepCollector c
      \<and> \<not> inDocString c'"
proof -
  from run_from_initial[of pre] assms(1) have v: "refs_valid c" by simp
  from contents_valid[OF v] obtain old where old: "collector_contents c = Some old" ..
  from run_doc_string[OF v assms(2-5)] obtain c' where
    r: "run (opening # inner @ [closing]) c = Inr c'"
    and p: "push_all (opening # inner @ [closing]) c = Inr c'" by blast
  have "run (pre @ opening # inner @ [closing]) initial_context = Inr c'"
    by (rule run_append_Inr[OF assms(1) r])
  with p old push_all_contents[OF p old] push_all_keeps[OF p] assms(2) show ?thesis by simp
qed


theorem doc_string_captured_witness:
  "\<exists>c'. run [''Scenario: s'', ''Given a text'', [dq, dq, dq], ''Scenario: inside'', ''@tag'',
          ''| cell |'', ''Then x'', [dq, dq, dq]] initial_context = Inr c'
     \<and> collector_contents c'
         = Some [''Given a text'', [dq, dq, dq], ''Scenario: inside'', ''@tag'', ''| cell |'',
              ''Then x'', [dq, dq, dq]]
     \<and> length (scenarios (feature c')) = 1"
proof -
  let ?pre = "[''Scenario: s'', ''Given a text'']"
  let ?c = "\<lparr>feature = \<lparr>feature_name = [], description = [], background = None,
                scenarios = [ScenarioModel ''s'' [''Given a text''] []]\<rparr>,
             currentScenario = Some 0, currentStepCollector = Scenario_steps 0,
             initial_steps = [], mode = Mode_scenario, headers = [], pendingTags = [],
             inDocString = False\<rparr>"
  have h1: "run ?pre initial_context = Inr ?c" by code_simp
  have h2: "\<not> inDocString ?c" by simp
  have h3: "startsWith [dq, dq, dq] [dq, dq, dq]" by (simp add: startsWith_def)
  have h4: "list_all (\<lambda>l. \<not> startsWith l [dq, dq, dq])
      [''Scenario: inside'', ''@tag'', ''| cell |'', ''Then x'']"
    by (simp add: startsWith_def dq_def)
  have old: "collector_contents ?c = Some [''Given a text'']"
    by (simp add: collector_contents_def)
  from doc_string_captured[OF h1 h2 h3 h4 h3] obtain c' where
    r: "run (?pre @ [dq, dq, dq] # [''Scenario: inside'', ''@tag'', ''| cell |'', ''Then x'']
          @ [[dq, dq, dq]]) initial_context = Inr c'"
    and p: "push_all ([dq, dq, dq] # [''Scenario: inside'', ''@tag'', ''| cell |'', ''Then x'']
          @ [[dq, dq, dq]]) ?c = Inr c'"
    and cc: "collector_contents c' = Some ([''Given a text''] @ [dq, dq, dq]
          # [''Scenario: inside'', ''@tag'', ''| cell |'', ''Then x''] @ [[dq, dq, dq]])"
    using old by auto
  have "length (scenarios (feature c')) = 1"
    using p by (auto simp: push_step_def split: sum.splits)
  with r cc show ?thesis by simp
qed


subsection \<open>Steps before any background or scenario\<close>

definition forget_initial :: "Context \<Rightarrow> Context" where
  "forget_initial c = c\<lparr>initial_steps := []\<rparr>"

definition detached :: "Context \<Rightarrow> bool" where
  "detached c =
     (currentStepCollector c = Initial_collector \<and> currentScenario c = None
      \<and> background (feature c) = None \<and> scenarios (feature c) = [])"

definition opens_collector :: "string \<Rightarrow> bool" where
  "opens_collector l =
     (startsWith l ''Background:'' \<or> startsWith l ''Scenario:''
      \<or> startsWith l ''Scenario Outline:'')"

fun forget_result :: "error + Context \<Rightarrow> error + Context" where
  "forget_result (Inl e) = Inl e"
| "forget_result (Inr c) = Inr (forget_initial c)"

lemma push_step_forget:
  "forget_result (push_step l c) = forget_result (push_step l (forget_initial c))"
  by (simp add: push_step_def forget_initial_def split: collector.splits option.splits)

lemma table_row_forget:
  "forget_result (table_row l c) = forget_result (table_row l (forget_initial c))"
  by (simp add: table_row_def forget_initial_def Let_def split: option.splits ScenarioEntity.splits)

lemma handlers_forget:
  "h \<in> {handle_Feature, handle_Background, handle_Scenario_Outline, handle_Scenario,
         handle_Examples, handle_Rule} \<Longrightarrow>
   forget_initial (h l c) = forget_initial (h l (forget_initial c))"
  by (auto simp: handle_Feature_def handle_Background_def handle_Scenario_Outline_def
      handle_Scenario_def handle_Examples_def handle_Rule_def Let_def forget_initial_def)

lemma push_step_flag_forget:
  "forget_result (push_step l (c\<lparr>inDocString := b\<rparr>))
     = forget_result (push_step l ((forget_initial c)\<lparr>inDocString := b\<rparr>))"
proof -
  have "(forget_initial c)\<lparr>inDocString := b\<rparr> = forget_initial (c\<lparr>inDocString := b\<rparr>)"
    by (simp add: forget_initial_def)
  then show ?thesis using push_step_forget[of l "c\<lparr>inDocString := b\<rparr>"] by simp
qed

lemma step_forget:
  "forget_result (step l c) = forget_result (step l (forget_initial c))"
proof -
  have f: "inDocString (forget_initial c) = inDocString c" "mode (forget_initial c) = mode c"
    "feature (forget_initial c) = feature c"
    by (simp_all add: forget_initial_def)
  have t: "forget_initial (c\<lparr>pendingTags := x\<rparr>) = forget_initial ((forget_initial c)\<lparr>pendingTags := x\<rparr>)" for x
    by (simp add: forget_initial_def)
  have d: "forget_initial (c\<lparr>feature := x\<rparr>) = forget_initial ((forget_initial c)\<lparr>feature := x\<rparr>)" for x
    by (simp add: forget_initial_def)
  have i: "forget_initial (forget_initial c) = forget_initial c" by (simp add: forget_initial_def)
  show ?thesis
  proof (cases "find (\<lambda>prefix. startsWith l prefix) (map fst handlers)")
    case None
    then show ?thesis
      unfolding step_def
      using push_step_forget[of l c] table_row_forget[of l c] push_step_flag_forget[where l=l and c=c] t d i
      by (simp add: f)
  next
    case (Some p)
    from handler_found[OF Some] obtain h where h: "map_of handlers p = Some h"
      "h \<in> {handle_Feature, handle_Background, handle_Scenario_Outline, handle_Scenario,
            handle_Examples, handle_Rule}" by blast
    with Some show ?thesis
      unfolding step_def
      using push_step_forget[of l c] push_step_flag_forget[where l=l and c=c] t handlers_forget[OF h(2), of l c]
      by (simp add: f)
  qed
qed

lemma step_forget_rel:
  assumes "forget_initial ca = forget_initial cb"
  shows "forget_result (step l ca) = forget_result (step l cb)"
  using step_forget[of l ca] step_forget[of l cb] assms by simp

lemma run_forget_rel:
  "forget_initial ca = forget_initial cb \<Longrightarrow>
   forget_result (run ls ca) = forget_result (run ls cb)"
proof (induction ls arbitrary: ca cb)
  case Nil
  then show ?case by simp
next
  case (Cons l ls)
  show ?case
  proof (cases "step l ca")
    case (Inl e)
    with step_forget_rel[OF Cons.prems, of l] have "step l cb = Inl e"
      by (cases "step l cb") auto
    with Inl show ?thesis by simp
  next
    case (Inr ca')
    with step_forget_rel[OF Cons.prems, of l] obtain cb' where
      b: "step l cb = Inr cb'" "forget_initial ca' = forget_initial cb'"
      by (cases "step l cb") auto
    from Cons.IH[OF b(2)] Inr b(1) show ?thesis by simp
  qed
qed


definition clean_description :: "FeatureModel \<Rightarrow> bool" where
  "clean_description f = list_all (\<lambda>d. \<not> isStepLine d) (description f)"

lemma stepline_no_handler:
  "isStepLine l \<Longrightarrow> find (\<lambda>prefix. startsWith l prefix) (map fst handlers) = None"
  using stepline_shape by blast

lemma Rule_line_no_step: "\<not> isStepLine (CHR ''R'' # x)"
  by (simp add: isStepLine_def STEP_KEYWORDS_def sw)

lemma push_step_description:
  "push_step l c = Inr c' \<Longrightarrow> description (feature c') = description (feature c)"
  by (auto simp: push_step_def split: collector.splits option.splits if_splits)

lemma table_row_description:
  "table_row l c = Inr c' \<Longrightarrow> description (feature c') = description (feature c)"
  by (auto simp: table_row_def Let_def split: option.splits if_splits ScenarioEntity.splits)

lemma handlers_clean:
  "h \<in> {handle_Feature, handle_Background, handle_Scenario_Outline, handle_Scenario,
         handle_Examples, handle_Rule} \<Longrightarrow> clean_description (feature c) \<Longrightarrow>
   clean_description (feature (h l c))"
  by (auto simp: handle_Feature_def handle_Background_def handle_Scenario_Outline_def
      handle_Scenario_def handle_Examples_def handle_Rule_def Let_def clean_description_def
      Rule_line_no_step)

lemma step_clean:
  assumes s: "step l c = Inr c'" and cl: "clean_description (feature c)"
  shows "clean_description (feature c')"
proof (cases "startsWith l [dq, dq, dq] \<or> inDocString c \<or> isStepLine l")
  case True
  then have "\<exists>b. push_step l (c\<lparr>inDocString := b\<rparr>) = Inr c'"
  proof (elim disjE)
    assume "startsWith l [dq, dq, dq]"
    from step_delimiter[OF this, of c] s show ?thesis by auto
  next
    assume a: "inDocString c"
    show ?thesis
    proof (cases "startsWith l [dq, dq, dq]")
      case True
      from step_delimiter[OF this, of c] s show ?thesis by auto
    next
      case False
      from step_inside[OF a False] s have "push_step l (c\<lparr>inDocString := inDocString c\<rparr>) = Inr c'"
        by simp
      then show ?thesis ..
    qed
  next
    assume "isStepLine l"
    with s have "push_step l c = Inr c'" by (simp add: step_stepline)
    then have "push_step l (c\<lparr>inDocString := inDocString c\<rparr>) = Inr c'" by simp
    then show ?thesis ..
  qed
  then obtain b where "push_step l (c\<lparr>inDocString := b\<rparr>) = Inr c'" ..
  from push_step_description[OF this] cl show ?thesis by (simp add: clean_description_def)
next
  case False
  then have nd: "\<not> startsWith l [dq, dq, dq]" and out: "\<not> inDocString c" and ns: "\<not> isStepLine l"
    by simp_all
  show ?thesis
  proof (cases "startsWith l ''@''")
    case True
    with nd out s have "feature c' = feature c" by (auto simp: step_def)
    with cl show ?thesis by simp
  next
    case nt: False
    show ?thesis
    proof (cases "find (\<lambda>prefix. startsWith l prefix) (map fst handlers)")
      case (Some p)
      from handler_found[OF Some] obtain h where h: "map_of handlers p = Some h"
        "h \<in> {handle_Feature, handle_Background, handle_Scenario_Outline, handle_Scenario,
              handle_Examples, handle_Rule}" by blast
      with nd out nt Some s have "c' = h l c" by (simp add: step_def)
      with handlers_clean[OF h(2) cl] show ?thesis by simp
    next
      case None
      show ?thesis
      proof (cases "startsWith l ''|''")
        case True
        with nd out nt None s have "table_row l c = Inr c'" by (simp add: step_def)
        from table_row_description[OF this] cl show ?thesis by (simp add: clean_description_def)
      next
        case False
        with nd out nt None ns s cl show ?thesis
          by (auto simp: step_def clean_description_def split: if_splits)
      qed
    qed
  qed
qed

lemma run_clean:
  "run ls c = Inr c' \<Longrightarrow> clean_description (feature c) \<Longrightarrow> clean_description (feature c')"
proof (induction ls arbitrary: c)
  case Nil
  then show ?case by simp
next
  case (Cons l ls)
  then obtain c1 where s: "step l c = Inr c1" and r: "run ls c1 = Inr c'"
    by (auto split: sum.splits)
  from Cons.IH[OF r step_clean[OF s Cons.prems(2)]] show ?case .
qed

lemma detached_stepline:
  "detached c \<Longrightarrow> isStepLine l \<Longrightarrow>
   step l c = Inr (c\<lparr>initial_steps := initial_steps c @ [l]\<rparr>)"
  by (simp add: step_stepline push_step_def detached_def)

lemma quiet_handler_detached:
  assumes "find (\<lambda>prefix. startsWith l prefix) (map fst handlers) = Some p"
    and "\<not> opens_collector l"
  shows "\<exists>h. map_of handlers p = Some h \<and> h \<in> {handle_Feature, handle_Examples, handle_Rule}"
proof -
  from assms(1) have sp: "startsWith l p" and pin: "p \<in> set (map fst handlers)"
    by (auto simp: find_Some_iff)
  from sp assms(2) have "p \<noteq> ''Background:''" "p \<noteq> ''Scenario:''" "p \<noteq> ''Scenario Outline:''"
    by (auto simp: opens_collector_def)
  with pin show ?thesis by (auto simp: handlers_def)
qed

lemma detached_other:
  assumes d: "detached c" and ns: "\<not> isStepLine l" and no: "\<not> opens_collector l"
    and s: "step l c = Inr c'"
  shows "detached c' \<and> filter isStepLine (initial_steps c') = filter isStepLine (initial_steps c)"
proof (cases "startsWith l [dq, dq, dq] \<or> inDocString c")
  case True
  have "\<exists>b. step l c = push_step l (c\<lparr>inDocString := b\<rparr>)"
  proof (cases "startsWith l [dq, dq, dq]")
    case True
    from step_delimiter[OF this, of c] show ?thesis by blast
  next
    case False
    with True have a: "inDocString c" by simp
    from step_inside[OF a False] have "step l c = push_step l (c\<lparr>inDocString := inDocString c\<rparr>)"
      by simp
    then show ?thesis ..
  qed
  then obtain b where "step l c = push_step l (c\<lparr>inDocString := b\<rparr>)" ..
  with s d have "c' = c\<lparr>inDocString := b, initial_steps := initial_steps c @ [l]\<rparr>"
    by (simp add: push_step_def detached_def)
  with d ns show ?thesis by (simp add: detached_def)
next
  case False
  then have nd: "\<not> startsWith l [dq, dq, dq]" and out: "\<not> inDocString c" by simp_all
  show ?thesis
  proof (cases "startsWith l ''@''")
    case True
    with nd out s d show ?thesis by (auto simp: step_def detached_def)
  next
    case nt: False
    show ?thesis
    proof (cases "find (\<lambda>prefix. startsWith l prefix) (map fst handlers)")
      case (Some p)
      from quiet_handler_detached[OF Some no] obtain h where h: "map_of handlers p = Some h"
        "h \<in> {handle_Feature, handle_Examples, handle_Rule}" by blast
      with nd out nt Some s have "c' = h l c" by (simp add: step_def)
      with h(2) d show ?thesis
        by (auto simp: handle_Feature_def handle_Examples_def handle_Rule_def detached_def)
    next
      case None
      with nd out nt ns s d show ?thesis
        by (auto simp: step_def table_row_def Let_def detached_def split: if_splits)
    qed
  qed
qed

lemma detached_run:
  "detached ca \<Longrightarrow> forget_initial ca = forget_initial cb \<Longrightarrow>
   list_all (\<lambda>l. \<not> opens_collector l) pre \<Longrightarrow> refs_valid ca \<Longrightarrow>
   (\<exists>c. run pre ca = Inr c \<and> detached c
       \<and> filter isStepLine (initial_steps c) = filter isStepLine (initial_steps ca) @ filter isStepLine pre)
   \<and> forget_result (run (pre @ rest) ca)
       = forget_result (run (filter (\<lambda>l. \<not> isStepLine l) pre @ rest) cb)"
proof (induction pre arbitrary: ca cb)
  case Nil
  from run_forget_rel[OF Nil.prems(2), of rest] Nil.prems(1) show ?case by simp
next
  case (Cons l pre)
  from Cons.prems have no: "\<not> opens_collector l"
    and rest: "list_all (\<lambda>l. \<not> opens_collector l) pre" by simp_all
  from step_valid[OF Cons.prems(4)] obtain ca' where s: "step l ca = Inr ca'" and v: "refs_valid ca'"
    by blast
  show ?case
  proof (cases "isStepLine l")
    case True
    from detached_stepline[OF Cons.prems(1) True] s
    have ca': "ca' = ca\<lparr>initial_steps := initial_steps ca @ [l]\<rparr>" by simp
    then have d': "detached ca'" using Cons.prems(1) by (simp add: detached_def)
    from ca' Cons.prems(2) have f': "forget_initial ca' = forget_initial cb"
      by (simp add: forget_initial_def)
    from Cons.IH[OF d' f' rest v] s True ca' show ?thesis by simp
  next
    case False
    from detached_other[OF Cons.prems(1) False no s]
    have d': "detached ca'"
      and i': "filter isStepLine (initial_steps ca') = filter isStepLine (initial_steps ca)"
      by simp_all
    from step_forget_rel[OF Cons.prems(2), of l] s obtain cb' where
      b: "step l cb = Inr cb'" "forget_initial ca' = forget_initial cb'"
      by (cases "step l cb") auto
    from Cons.IH[OF d' b(2) rest v] s b(1) i' False show ?thesis by simp
  qed
qed


lemma feature_forget: "forget_result r = forget_result r' \<Longrightarrow> map_sum id feature r = map_sum id feature r'"
  by (cases r; cases r') (auto simp: forget_initial_def dest: arg_cong[where f = feature])

text \<open>
  Claim C10. When no line of a prefix of the input starts with \<open>Background:\<close>,
  \<open>Scenario:\<close> or \<open>Scenario Outline:\<close>, the step-keyword lines of the prefix go to the array
  the context was created with, which is still the current collector after the prefix
  and holds exactly these step lines among its step lines; the feature has no
  background and no scenario then, and its description holds no step line. The array
  is not part of the returned feature: whatever follows the prefix, the parser returns
  the feature it returns for the input without these step lines, and the description
  of the returned feature holds no step line.
\<close>

theorem early_steps_are_dropped:
  assumes "list_all (\<lambda>l. \<not> opens_collector l) pre"
  shows "\<exists>c f. run pre initial_context = Inr c
      \<and> currentStepCollector c = Initial_collector
      \<and> filter isStepLine (initial_steps c) = filter isStepLine pre
      \<and> background (feature c) = None \<and> scenarios (feature c) = []
      \<and> list_all (\<lambda>d. \<not> isStepLine d) (description (feature c))
      \<and> parse_lines (pre @ rest) = Inr f
      \<and> parse_lines (filter (\<lambda>l. \<not> isStepLine l) pre @ rest) = Inr f
      \<and> list_all (\<lambda>d. \<not> isStepLine d) (description f)"
proof -
  have d0: "detached initial_context"
    by (simp add: detached_def initial_context_def new_FeatureModel_def)
  have c0: "clean_description (feature initial_context)"
    by (simp add: clean_description_def initial_context_def new_FeatureModel_def)
  from detached_run[OF d0 refl assms refs_valid_initial, of rest] obtain c where
    r: "run pre initial_context = Inr c" and d: "detached c"
    and i: "filter isStepLine (initial_steps c) = filter isStepLine pre"
    and e: "forget_result (run (pre @ rest) initial_context)
       = forget_result (run (filter (\<lambda>l. \<not> isStepLine l) pre @ rest) initial_context)"
    by (auto simp: initial_context_def)
  from run_from_initial[of "pre @ rest"] obtain c2 where
    r2: "run (pre @ rest) initial_context = Inr c2" by blast
  have p1: "parse_lines (pre @ rest) = Inr (feature c2)" using r2 by (simp add: parse_lines_def)
  have p2: "parse_lines (filter (\<lambda>l. \<not> isStepLine l) pre @ rest) = Inr (feature c2)"
    using feature_forget[OF e] r2 by (simp add: parse_lines_def)
  from run_clean[OF r c0] have k1: "list_all (\<lambda>d. \<not> isStepLine d) (description (feature c))"
    by (simp add: clean_description_def)
  from run_clean[OF r2 c0] have k2: "list_all (\<lambda>d. \<not> isStepLine d) (description (feature c2))"
    by (simp add: clean_description_def)
  from r d i p1 p2 k1 k2 show ?thesis by (auto simp: detached_def)
qed

theorem early_steps_are_dropped_witness:
  "list_all (\<lambda>l. \<not> opens_collector l) [''Feature: f'', ''Given early'', ''free text'', ''And more'']
   \<and> (\<exists>c f. run [''Feature: f'', ''Given early'', ''free text'', ''And more''] initial_context = Inr c
        \<and> filter isStepLine (initial_steps c) = [''Given early'', ''And more'']
        \<and> parse_lines [''Feature: f'', ''Given early'', ''free text'', ''And more'', ''Scenario: s'',
              ''Given x''] = Inr f
        \<and> parse_lines [''Feature: f'', ''free text'', ''Scenario: s'', ''Given x''] = Inr f)"
proof -
  let ?pre = "[''Feature: f'', ''Given early'', ''free text'', ''And more'']"
  have h: "list_all (\<lambda>l. \<not> opens_collector l) ?pre"
    by (simp add: opens_collector_def startsWith_def)
  have s: "filter isStepLine ?pre = [''Given early'', ''And more'']"
    by (simp add: isStepLine_def STEP_KEYWORDS_def startsWith_def)
  have n: "filter (\<lambda>l. \<not> isStepLine l) ?pre = [''Feature: f'', ''free text'']"
    by (simp add: isStepLine_def STEP_KEYWORDS_def startsWith_def)
  from early_steps_are_dropped[OF h, of "[''Scenario: s'', ''Given x'']"] obtain c f where
    "run ?pre initial_context = Inr c"
    "filter isStepLine (initial_steps c) = filter isStepLine ?pre"
    "parse_lines (?pre @ [''Scenario: s'', ''Given x'']) = Inr f"
    "parse_lines (filter (\<lambda>l. \<not> isStepLine l) ?pre @ [''Scenario: s'', ''Given x'']) = Inr f"
    by blast
  with s n have "run ?pre initial_context = Inr c
        \<and> filter isStepLine (initial_steps c) = [''Given early'', ''And more'']
        \<and> parse_lines [''Feature: f'', ''Given early'', ''free text'', ''And more'', ''Scenario: s'',
              ''Given x''] = Inr f
        \<and> parse_lines [''Feature: f'', ''free text'', ''Scenario: s'', ''Given x''] = Inr f"
    by simp
  then have "\<exists>c f. run ?pre initial_context = Inr c
        \<and> filter isStepLine (initial_steps c) = [''Given early'', ''And more'']
        \<and> parse_lines [''Feature: f'', ''Given early'', ''free text'', ''And more'', ''Scenario: s'',
              ''Given x''] = Inr f
        \<and> parse_lines [''Feature: f'', ''free text'', ''Scenario: s'', ''Given x''] = Inr f"
    by blast
  with h show ?thesis by (intro conjI)
qed

subsection \<open>No line makes the pass fail\<close>

lemma table_row_ignored:
  assumes "refs_valid c" "headers c \<noteq> []"
    "currentScenario c = None
       \<or> (\<exists>i. currentScenario c = Some i \<and> is_ScenarioModel (scenarios (feature c) ! i))"
  shows "table_row l c = Inr c"
  using assms
  by (auto simp: table_row_def refs_valid_def Let_def split: ScenarioEntity.splits)

text \<open>
  Claim C9. For every list of lines the pass returns a feature, and so does the parser
  on every file text: no reference the pass writes through is ever unset. In particular,
  after any prefix of the input: a table row read while no header is buffered becomes
  the header; a table row read while a header is buffered and the current scenario is
  unset or a plain scenario changes nothing; a step line read while the collector is
  the initial array is pushed there; and a doc-string that is never closed takes every
  remaining line into the collector, after which the feature is returned.
\<close>

theorem parse_never_fails:
  "(\<exists>f. parse_lines ls = Inr f) \<and> (\<exists>f. parseFeature content = Inr f)
   \<and> (run pre initial_context = Inr c \<and> \<not> inDocString c \<and> startsWith l ''|'' \<longrightarrow>
        (headers c = [] \<longrightarrow> step l c = Inr (c\<lparr>headers := parseTableRow l\<rparr>))
        \<and> (headers c \<noteq> []
             \<and> (currentScenario c = None
                 \<or> (\<exists>i. currentScenario c = Some i
                        \<and> is_ScenarioModel (scenarios (feature c) ! i)))
            \<longrightarrow> step l c = Inr c))
   \<and> (run pre initial_context = Inr c \<and> currentStepCollector c = Initial_collector
        \<and> isStepLine l \<longrightarrow>
        step l c = Inr (c\<lparr>initial_steps := initial_steps c @ [l]\<rparr>))
   \<and> (run pre initial_context = Inr c \<and> inDocString c
        \<and> list_all (\<lambda>l. \<not> startsWith l [dq, dq, dq]) tail \<longrightarrow>
        (\<exists>c' f. run (pre @ tail) initial_context = Inr c' \<and> push_all tail c = Inr c'
            \<and> inDocString c' \<and> parse_lines (pre @ tail) = Inr f))"
proof -
  have A: "\<exists>f. parse_lines xs = Inr f" for xs
    using run_from_initial[of xs] by (auto simp: parse_lines_def)
  have B: "\<exists>f. parseFeature content = Inr f" using A by (simp add: parseFeature_def)
  have C: "step l c = Inr (c\<lparr>headers := parseTableRow l\<rparr>)"
    if "\<not> inDocString c" "startsWith l ''|''" "headers c = []"
    using that by (simp add: step_table table_row_def)
  have D: "step l c = Inr c"
    if "run pre initial_context = Inr c" "\<not> inDocString c" "startsWith l ''|''" "headers c \<noteq> []"
      "currentScenario c = None
         \<or> (\<exists>i. currentScenario c = Some i \<and> is_ScenarioModel (scenarios (feature c) ! i))"
  proof -
    from run_from_initial[of pre] that(1) have "refs_valid c" by simp
    from table_row_ignored[OF this that(4,5)] that(2,3) show ?thesis by (simp add: step_table)
  qed
  have E: "step l c = Inr (c\<lparr>initial_steps := initial_steps c @ [l]\<rparr>)"
    if "currentStepCollector c = Initial_collector" "isStepLine l"
    using that by (simp add: step_stepline push_step_def)
  have F: "\<exists>c' f. run (pre @ tail) initial_context = Inr c' \<and> push_all tail c = Inr c'
            \<and> inDocString c' \<and> parse_lines (pre @ tail) = Inr f"
    if r: "run pre initial_context = Inr c" and i: "inDocString c"
      and m: "list_all (\<lambda>l. \<not> startsWith l [dq, dq, dq]) tail"
  proof -
    from run_from_initial[of pre] r have "refs_valid c" by simp
    from push_all_valid[OF this, of tail] obtain c' where p: "push_all tail c = Inr c'" by blast
    from run_inside[OF i m] p have "run tail c = Inr c'" by simp
    then have "run (pre @ tail) initial_context = Inr c'" by (rule run_append_Inr[OF r])
    with p push_all_keeps[OF p] i A[of "pre @ tail"] show ?thesis by auto
  qed
  from A B C D E F show ?thesis by blast
qed

theorem parse_never_fails_witness:
  "run [''Scenario: s'', ''| h |''] initial_context
     = Inr \<lparr>feature = \<lparr>feature_name = [], description = [], background = None,
                scenarios = [ScenarioModel ''s'' [] []]\<rparr>,
             currentScenario = Some 0, currentStepCollector = Scenario_steps 0,
             initial_steps = [], mode = Mode_scenario, headers = [''h''], pendingTags = [],
             inDocString = False\<rparr>
   \<and> step ''| row |'' \<lparr>feature = \<lparr>feature_name = [], description = [], background = None,
                scenarios = [ScenarioModel ''s'' [] []]\<rparr>,
             currentScenario = Some 0, currentStepCollector = Scenario_steps 0,
             initial_steps = [], mode = Mode_scenario, headers = [''h''], pendingTags = [],
             inDocString = False\<rparr>
     = Inr \<lparr>feature = \<lparr>feature_name = [], description = [], background = None,
                scenarios = [ScenarioModel ''s'' [] []]\<rparr>,
             currentScenario = Some 0, currentStepCollector = Scenario_steps 0,
             initial_steps = [], mode = Mode_scenario, headers = [''h''], pendingTags = [],
             inDocString = False\<rparr>
   \<and> (\<exists>f. parse_lines [''| early |'', ''Given early'', ''Scenario: s'', ''| row |'', [dq, dq, dq],
            ''never closed''] = Inr f)"
proof -
  let ?c = "\<lparr>feature = \<lparr>feature_name = [], description = [], background = None,
                scenarios = [ScenarioModel ''s'' [] []]\<rparr>,
             currentScenario = Some 0, currentStepCollector = Scenario_steps 0,
             initial_steps = [], mode = Mode_scenario, headers = [''h''], pendingTags = [],
             inDocString = False\<rparr>"
  have h1: "run [''Scenario: s'', ''| h |''] initial_context = Inr ?c" by code_simp
  have h2: "\<not> inDocString ?c" "startsWith ''| row |'' ''|''" "headers ?c \<noteq> []"
    by (simp_all add: startsWith_def)
  have h3: "currentScenario ?c = None
      \<or> (\<exists>i. currentScenario ?c = Some i \<and> is_ScenarioModel (scenarios (feature ?c) ! i))"
    by simp
  from parse_never_fails[of _ _ "[''Scenario: s'', ''| h |'']" ?c "''| row |''"] h1 h2 h3
  have "step ''| row |'' ?c = Inr ?c" by blast
  moreover from parse_never_fails[of "[''| early |'', ''Given early'', ''Scenario: s'', ''| row |'',
      [dq, dq, dq], ''never closed'']"]
  have "\<exists>f. parse_lines [''| early |'', ''Given early'', ''Scenario: s'', ''| row |'', [dq, dq, dq],
            ''never closed''] = Inr f" by blast
  ultimately show ?thesis using h1 by (intro conjI)
qed

section \<open>Properties of the variable extraction\<close>

subsection \<open>The two example steps\<close>

text \<open>
  Claim C4. The variable extraction applied to the step
  \<^verbatim>\<open>Given a user with username "john_doe" and password "secret123"\<close> returns exactly the
  object with \<open>key1\<close> the string \<open>john_doe\<close> and \<open>key2\<close> the string \<open>secret123\<close>, and no
  numeric key; applied to \<^verbatim>\<open>Then the count is 42 and the ratio is 3.5\<close> it returns
  exactly the object with \<open>num1\<close> the number 42 and \<open>num2\<close> the number 3.5.
\<close>

theorem extraction_examples:
  \<open>extractVariablesFromStep
      ''Given a user with username "john_doe" and password "secret123"''
     = [(''key1'', JString ''john_doe''), (''key2'', JString ''secret123'')]
   \<and> extractVariablesFromStep ''Then the count is 42 and the ratio is 3.5''
     = [(''num1'', JNumber (Finite 42)), (''num2'', JNumber (Finite (7 / 2)))]\<close>
  by code_simp

subsection \<open>Index keys\<close>

lemma digit_val_char_of: "n < 10 \<Longrightarrow> digit_val (char_of (48 + n)) = int n"
proof -
  assume n: "n < 10"
  have "(of_char (char_of (48 + n)) :: int) = int (of_char (char_of (48 + n)))"
    by (simp only: of_nat_of_char)
  also have "\<dots> = int ((48 + n) mod 256)" by (simp only: of_char_of)
  also have "\<dots> = 48 + int n" using n by simp
  finally show ?thesis by (simp add: digit_val_def)
qed

lemma digits_value_snoc: "digits_value (xs @ [c]) = 10 * digits_value xs + digit_val c"
  by (simp add: digits_value_def)

lemma digits_value_nat_to_string: "digits_value (nat_to_string n) = int n"
proof (induction n rule: nat_to_string.induct)
  case (1 n)
  show ?case
  proof (cases "n < 10")
    case True
    then show ?thesis
      by (subst nat_to_string.simps) (simp add: digits_value_def digit_val_char_of)
  next
    case False
    have "digits_value (nat_to_string n)
        = 10 * digits_value (nat_to_string (n div 10)) + digit_val (char_of (48 + n mod 10))"
      using False by (subst nat_to_string.simps) (simp add: digits_value_snoc)
    also have "\<dots> = 10 * int (n div 10) + int (n mod 10)"
      using "1.IH"[OF False] by (simp add: digit_val_char_of)
    also have "\<dots> = int n" by presburger
    finally show ?thesis .
  qed
qed

lemma nat_to_string_inj:
  assumes "nat_to_string m = nat_to_string n"
  shows "m = n"
proof -
  have "int m = digits_value (nat_to_string m)" by (simp only: digits_value_nat_to_string)
  also have "\<dots> = digits_value (nat_to_string n)" by (simp only: assms)
  also have "\<dots> = int n" by (simp only: digits_value_nat_to_string)
  finally show ?thesis by simp
qed

lemma fold_indexed_append:
  assumes inj: "\<And>i j. kf i = kf j \<Longrightarrow> i = j" and np: "\<And>i. kf i \<noteq> ''__proto__''"
  shows "(\<forall>i \<ge> n. kf i \<notin> fst ` set vars) \<Longrightarrow>
     foldl (\<lambda>vars (i, m). obj_set vars (kf i) (vf m)) vars (enumerate n ms)
       = vars @ map (\<lambda>(i, m). (kf i, vf m)) (enumerate n ms)"
proof (induction ms arbitrary: vars n)
  case Nil
  then show ?case by simp
next
  case (Cons m ms)
  from Cons.prems have fresh: "kf n \<notin> fst ` set vars" by simp
  have s: "obj_set vars (kf n) (vf m) = vars @ [(kf n, vf m)]"
    using fresh np[of n] by (simp add: obj_set_def update_fresh)
  have "\<forall>i \<ge> Suc n. kf i \<notin> fst ` set (vars @ [(kf n, vf m)])"
  proof (intro allI impI)
    fix i assume i: "Suc n \<le> i"
    then have "kf i \<noteq> kf n" using inj[of i n] by auto
    moreover from i Cons.prems have "kf i \<notin> fst ` set vars" by simp
    ultimately show "kf i \<notin> fst ` set (vars @ [(kf n, vf m)])" by simp
  qed
  from Cons.IH[OF this] s show ?case by simp
qed

lemma indexed_keys: "fst ` set (map (\<lambda>(i, m). (kf i, vf m)) (enumerate n ms)) \<subseteq> range kf"
  by auto

lemma extract_object:
  "extractVariablesFromStep s
     = map (\<lambda>(i, m). (''key'' @ nat_to_string (i + 1), JString (filter (\<lambda>c. c \<noteq> dq) m)))
         (enumerate 0 (quoted_matches s))
       @ map (\<lambda>(i, m). (''num'' @ nat_to_string (i + 1), JNumber (Number m)))
           (enumerate 0 (number_matches s))"
proof -
  let ?kf = "\<lambda>i. ''key'' @ nat_to_string (i + 1)"
  let ?nf = "\<lambda>i. ''num'' @ nat_to_string (i + 1)"
  let ?kv = "\<lambda>m. JString (filter (\<lambda>c. c \<noteq> dq) m)"
  let ?nv = "\<lambda>m. JNumber (Number m)"
  let ?K = "map (\<lambda>(i, m). (?kf i, ?kv m)) (enumerate 0 (quoted_matches s))"
  have kinj: "\<And>i j. ?kf i = ?kf j \<Longrightarrow> i = j" by (auto dest: nat_to_string_inj)
  have ninj: "\<And>i j. ?nf i = ?nf j \<Longrightarrow> i = j" by (auto dest: nat_to_string_inj)
  have knp: "\<And>i. ?kf i \<noteq> ''__proto__''" by simp
  have nnp: "\<And>i. ?nf i \<noteq> ''__proto__''" by simp
  have 1: "foldl (\<lambda>vars (i, m). obj_set vars (?kf i) (?kv m)) [] (enumerate 0 (quoted_matches s)) = ?K"
    using fold_indexed_append[where kf = ?kf and vf = ?kv and vars = "[]" and n = 0, OF kinj knp]
    by simp
  have "fst ` set ?K \<subseteq> range ?kf" by (rule indexed_keys)
  then have fresh: "\<forall>i \<ge> 0. ?nf i \<notin> fst ` set ?K" by auto
  have 2: "foldl (\<lambda>vars (i, m). obj_set vars (?nf i) (?nv m)) ?K (enumerate 0 (number_matches s))
      = ?K @ map (\<lambda>(i, m). (?nf i, ?nv m)) (enumerate 0 (number_matches s))"
    by (rule fold_indexed_append[where kf = ?nf and vf = ?nv, OF ninj nnp fresh])
  show ?thesis
    unfolding extractVariablesFromStep_def Let_def 1 2 ..
qed


subsection \<open>Quoted strings\<close>

text \<open>
  The layout the scan gives a text: segments, each a gap followed by a body between
  double quotes, and a tail after the last segment. A body is not empty and holds no
  double quote. A gap holds no double quote but for a run of double quotes at its very
  end, and the tail holds at most one run of double quotes: in neither does a double
  quote stand before one or more other characters and a closing double quote.
\<close>

fun render :: "(string \<times> string) list \<Rightarrow> string \<Rightarrow> string" where
  "render [] tail = tail"
| "render ((gap, body) # segs) tail = gap @ dq # body @ dq # render segs tail"

definition barren_gap :: "string \<Rightarrow> bool" where
  "barren_gap gap = list_all (\<lambda>c. c = dq) (dropWhile (\<lambda>c. c \<noteq> dq) gap)"

definition barren_tail :: "string \<Rightarrow> bool" where
  "barren_tail tail =
     (dq \<notin> set (dropWhile (\<lambda>c. c = dq) (dropWhile (\<lambda>c. c \<noteq> dq) tail)))"

definition scan_layout :: "(string \<times> string) list \<Rightarrow> string \<Rightarrow> bool" where
  "scan_layout segs tail =
     (list_all (\<lambda>(gap, body). barren_gap gap \<and> body \<noteq> [] \<and> dq \<notin> set body) segs
      \<and> barren_tail tail)"

lemma match_quoted_at_body:
  assumes "body \<noteq> []" and "dq \<notin> set body"
  shows "match_quoted_at (dq # body @ dq # rest) = Some (dq # body @ [dq], rest)"
proof -
  have all: "\<And>x. x \<in> set body \<Longrightarrow> x \<noteq> dq" using assms(2) by auto
  have tw: "takeWhile (\<lambda>x. x \<noteq> dq) (body @ dq # rest) = body"
    using takeWhile_append2[of body "\<lambda>x. x \<noteq> dq" "dq # rest"] all by simp
  have dw: "dropWhile (\<lambda>x. x \<noteq> dq) (body @ dq # rest) = dq # rest"
    using dropWhile_append2[of body "\<lambda>x. x \<noteq> dq" "dq # rest"] all by simp
  show ?thesis
    unfolding match_quoted_at_def by (simp add: tw dw assms(1))
qed

lemma match_quoted_at_other: "c \<noteq> dq \<Longrightarrow> match_quoted_at (c # cs) = None"
  by (simp add: match_quoted_at_def)

lemma match_quoted_at_empty_pair: "match_quoted_at (dq # dq # cs) = None"
  by (simp add: match_quoted_at_def)

lemma match_quoted_at_unclosed: "dq \<notin> set cs \<Longrightarrow> match_quoted_at (dq # cs) = None"
proof -
  assume "dq \<notin> set cs"
  then have "dropWhile (\<lambda>x. x \<noteq> dq) cs = []" by auto
  then show ?thesis by (simp add: match_quoted_at_def)
qed

lemma match_quoted_at_None_cases:
  assumes "match_quoted_at (dq # cs) = None"
  shows "(\<exists>r. cs = dq # r) \<or> dq \<notin> set cs"
proof (cases cs)
  case Nil
  then show ?thesis by simp
next
  case (Cons x r)
  show ?thesis
  proof (cases "x = dq")
    case True
    with Cons show ?thesis by simp
  next
    case False
    with Cons have "takeWhile (\<lambda>x. x \<noteq> dq) cs \<noteq> []" by simp
    with assms have "dropWhile (\<lambda>x. x \<noteq> dq) cs = []"
      by (auto simp: match_quoted_at_def Let_def split: if_splits)
    then have "dq \<notin> set cs" by auto
    then show ?thesis ..
  qed
qed

lemma barren_gap_Nil [simp]: "barren_gap []"
  by (simp add: barren_gap_def)

lemma barren_gap_other: "c \<noteq> dq \<Longrightarrow> barren_gap (c # g) = barren_gap g"
  by (simp add: barren_gap_def)

lemma barren_gap_quote: "barren_gap (dq # g) = list_all (\<lambda>c. c = dq) g"
  by (simp add: barren_gap_def)

lemma all_quotes_barren: "list_all (\<lambda>c. c = dq) g \<Longrightarrow> barren_gap g"
  by (cases g) (auto simp: barren_gap_def)

lemma barren_tail_other: "c \<noteq> dq \<Longrightarrow> barren_tail (c # t) = barren_tail t"
  by (simp add: barren_tail_def)

lemma barren_tail_quote: "barren_tail (dq # t) = (dq \<notin> set (dropWhile (\<lambda>c. c = dq) t))"
  by (simp add: barren_tail_def)

lemma barren_tail_quote_quote: "barren_tail (dq # dq # t) = barren_tail (dq # t)"
  by (simp add: barren_tail_def)

lemma no_quote_barren: "dq \<notin> set t \<Longrightarrow> barren_tail t"
proof -
  assume a: "dq \<notin> set t"
  have "set (dropWhile (\<lambda>c. c = dq) (dropWhile (\<lambda>c. c \<noteq> dq) t)) \<subseteq> set t"
    by (meson set_dropWhileD subsetI)
  with a show ?thesis by (auto simp: barren_tail_def)
qed

lemma quoted_matches_gap:
  assumes "body \<noteq> []" and "dq \<notin> set body"
  shows "barren_gap gap \<Longrightarrow>
     quoted_matches (gap @ dq # body @ dq # rest) = (dq # body @ [dq]) # quoted_matches rest"
proof (induction gap)
  case Nil
  show ?case by (simp add: match_quoted_at_body[OF assms])
next
  case (Cons c gap)
  show ?case
  proof (cases "c = dq")
    case False
    with Cons show ?thesis by (simp add: match_quoted_at_other barren_gap_other)
  next
    case True
    with Cons.prems have all: "list_all (\<lambda>c. c = dq) gap" by (simp add: barren_gap_quote)
    then have next_quote: "\<exists>r. gap @ dq # body @ dq # rest = dq # r" by (cases gap) auto
    then obtain r where r: "gap @ dq # body @ dq # rest = dq # r" ..
    have "match_quoted_at ((c # gap) @ dq # body @ dq # rest) = None"
      using True r by (simp add: match_quoted_at_empty_pair)
    with Cons.IH[OF all_quotes_barren[OF all]] show ?thesis by simp
  qed
qed

lemma quoted_matches_tail: "barren_tail t \<Longrightarrow> quoted_matches t = []"
proof (induction t)
  case Nil
  then show ?case by simp
next
  case (Cons c t)
  show ?case
  proof (cases "c = dq")
    case False
    with Cons show ?thesis by (simp add: match_quoted_at_other barren_tail_other)
  next
    case True
    show ?thesis
    proof (cases "\<exists>r. t = dq # r")
      case True
      then obtain r where r: "t = dq # r" ..
      with \<open>c = dq\<close> Cons.prems have "barren_tail t" by (simp add: barren_tail_quote_quote)
      with Cons.IH r \<open>c = dq\<close> show ?thesis by (simp add: match_quoted_at_empty_pair)
    next
      case False
      then have "dropWhile (\<lambda>c. c = dq) t = t" by (cases t) auto
      with \<open>c = dq\<close> Cons.prems have nq: "dq \<notin> set t" by (simp add: barren_tail_quote)
      with Cons.IH[OF no_quote_barren[OF nq]] \<open>c = dq\<close> show ?thesis
        by (simp add: match_quoted_at_unclosed)
    qed
  qed
qed

lemma quoted_matches_render:
  "scan_layout segs tail \<Longrightarrow>
   quoted_matches (render segs tail) = map (\<lambda>(gap, body). dq # body @ [dq]) segs"
proof (induction segs)
  case Nil
  then show ?case by (simp add: scan_layout_def quoted_matches_tail)
next
  case (Cons sg segs)
  obtain gap body where sg: "sg = (gap, body)" by (cases sg)
  from Cons.prems sg have g: "barren_gap gap" "body \<noteq> []" "dq \<notin> set body"
    and rest: "scan_layout segs tail" by (simp_all add: scan_layout_def)
  from quoted_matches_gap[OF g(2,3) g(1)] Cons.IH[OF rest] sg show ?case by simp
qed


lemma match_quoted_at_shape:
  assumes "match_quoted_at s = Some (m, rest)"
  shows "\<exists>body. body \<noteq> [] \<and> dq \<notin> set body \<and> m = dq # body @ [dq] \<and> s = dq # body @ dq # rest"
proof -
  from assms obtain r where s: "s = dq # r"
    by (cases s) (auto simp: match_quoted_at_def split: if_splits)
  let ?b = "takeWhile (\<lambda>x. x \<noteq> dq) r" and ?a = "dropWhile (\<lambda>x. x \<noteq> dq) r"
  from assms s have b: "?b \<noteq> []" and a: "?a \<noteq> []" and m: "m = dq # ?b @ [dq]"
    and rest: "rest = tl ?a"
    by (auto simp: match_quoted_at_def Let_def split: if_splits)
  from a have "hd ?a = dq" using hd_dropWhile[of "\<lambda>x. x \<noteq> dq" r] by auto
  with a rest have "?a = dq # rest" by (cases ?a) auto
  then have "r = ?b @ dq # rest" using takeWhile_dropWhile_id[of "\<lambda>x. x \<noteq> dq" r] by simp
  moreover have "dq \<notin> set ?b" using set_takeWhileD[of dq "\<lambda>x. x \<noteq> dq" r] by auto
  ultimately show ?thesis using b m s by auto
qed

lemma layout_exists: "\<exists>segs tail. s = render segs tail \<and> scan_layout segs tail"
proof (induction s rule: quoted_matches.induct)
  case 1
  have "[] = render [] [] \<and> scan_layout [] []" by (simp add: scan_layout_def barren_tail_def)
  then show ?case by blast
next
  case (2 c cs)
  show ?case
  proof (cases "match_quoted_at (c # cs)")
    case (Some a)
    obtain m rest where a: "a = (m, rest)" by (cases a)
    from match_quoted_at_shape[OF Some[unfolded a]] obtain body where
      b: "body \<noteq> []" "dq \<notin> set body" "c # cs = dq # body @ dq # rest" by blast
    from "2.IH"(2)[OF Some[unfolded a] refl] obtain segs tail where
      ih: "rest = render segs tail" "scan_layout segs tail" by blast
    from b ih have "c # cs = render (([], body) # segs) tail \<and> scan_layout (([], body) # segs) tail"
      by (simp add: scan_layout_def)
    then show ?thesis by blast
  next
    case None
    from "2.IH"(1)[OF None] obtain segs tail where
      ih: "cs = render segs tail" "scan_layout segs tail" by blast
    show ?thesis
    proof (cases segs)
      case Nil
      with ih have t: "cs = tail" "barren_tail tail" by (simp_all add: scan_layout_def)
      have "barren_tail (c # tail)"
      proof (cases "c = dq")
        case False
        with t show ?thesis by (simp add: barren_tail_other)
      next
        case True
        from match_quoted_at_None_cases[OF None[unfolded True]] t(1)
        consider r where "tail = dq # r" | "dq \<notin> set tail" by blast
        then show ?thesis
        proof cases
          case 1
          with t(2) True show ?thesis by (simp add: barren_tail_quote_quote)
        next
          case 2
          have "set (dropWhile (\<lambda>c. c = dq) tail) \<subseteq> set tail" by (meson set_dropWhileD subsetI)
          with 2 True show ?thesis by (auto simp: barren_tail_quote)
        qed
      qed
      with t have "c # cs = render [] (c # tail) \<and> scan_layout [] (c # tail)"
        by (simp add: scan_layout_def)
      then show ?thesis by blast
    next
      case (Cons sg segs')
      obtain gap body where sg: "sg = (gap, body)" by (cases sg)
      from ih Cons sg have cs: "cs = gap @ dq # body @ dq # render segs' tail"
        and g: "barren_gap gap" "body \<noteq> []" "dq \<notin> set body"
        and rest: "list_all (\<lambda>(gap, body). barren_gap gap \<and> body \<noteq> [] \<and> dq \<notin> set body) segs'"
          "barren_tail tail"
        by (simp_all add: scan_layout_def)
      have "barren_gap (c # gap)"
      proof (cases "c = dq")
        case False
        with g(1) show ?thesis by (simp add: barren_gap_other)
      next
        case True
        have "dq \<in> set cs" using cs by simp
        with match_quoted_at_None_cases[OF None[unfolded True]] obtain r where r: "cs = dq # r"
          by blast
        have "list_all (\<lambda>c. c = dq) gap"
        proof (cases gap)
          case Nil
          then show ?thesis by simp
        next
          case (Cons x gap')
          with cs r have "x = dq" by simp
          with Cons g(1) show ?thesis by (simp add: barren_gap_quote)
        qed
        with True show ?thesis by (simp add: barren_gap_quote)
      qed
      with cs g rest have "c # cs = render ((c # gap, body) # segs') tail
          \<and> scan_layout ((c # gap, body) # segs') tail"
        by (simp add: scan_layout_def)
      then show ?thesis by blast
    qed
  qed
qed

lemma key_entries_of_layout:
  assumes "list_all (\<lambda>(gap, body). barren_gap gap \<and> body \<noteq> [] \<and> dq \<notin> set body) segs"
  shows "map (\<lambda>(i, m). (''key'' @ nat_to_string (i + 1), JString (filter (\<lambda>c. c \<noteq> dq) m)))
           (enumerate n (map (\<lambda>(gap, body). dq # body @ [dq]) segs))
       = map (\<lambda>(i, body). (''key'' @ nat_to_string (Suc i), JString body))
           (enumerate n (map snd segs))"
  using assms
proof (induction segs arbitrary: n)
  case Nil
  then show ?case by simp
next
  case (Cons sg segs)
  obtain gap body where sg: "sg = (gap, body)" by (cases sg)
  from Cons.prems sg have "dq \<notin> set body" by simp
  then have "filter (\<lambda>c. c \<noteq> dq) body = body" by (auto simp: filter_id_conv)
  with Cons sg show ?case by simp
qed

text \<open>
  Claim C5, as amended. Every step has a layout: gaps, quoted bodies that are not empty,
  and a tail, where no gap and no tail holds a double quote that stands before one or
  more other characters and a closing double quote. For every layout, the extraction of
  the text laid out is exactly the object whose first entries are, in left-to-right
  order, the bodies without their quotes, the \<open>n\<close>-th (1-indexed) under the key \<open>key\<close>
  followed by \<open>n\<close>, and whose other entries are the numeral matches under the \<open>num\<close>
  keys. So the extraction captures, from the left, every double quote followed by one
  or more characters that are not double quotes and a closing double quote, and goes on
  after the closing quote; this covers every step whose double quotes pair up around
  non-empty contents. An empty pair of quotes is not captured: the pattern asks for at
  least one character.
\<close>

theorem quoted_strings_captured:
  "(\<exists>segs tail. s = render segs tail \<and> scan_layout segs tail)
   \<and> (scan_layout segs' tail' \<longrightarrow>
        extractVariablesFromStep (render segs' tail')
          = map (\<lambda>(i, body). (''key'' @ nat_to_string (Suc i), JString body))
              (enumerate 0 (map snd segs'))
            @ map (\<lambda>(i, m). (''num'' @ nat_to_string (Suc i), JNumber (Number m)))
                (enumerate 0 (number_matches (render segs' tail'))))"
proof -
  have B: "extractVariablesFromStep (render segs' tail')
          = map (\<lambda>(i, body). (''key'' @ nat_to_string (Suc i), JString body))
              (enumerate 0 (map snd segs'))
            @ map (\<lambda>(i, m). (''num'' @ nat_to_string (Suc i), JNumber (Number m)))
                (enumerate 0 (number_matches (render segs' tail')))"
    if l: "scan_layout segs' tail'"
  proof -
    from l have a: "list_all (\<lambda>(gap, body). barren_gap gap \<and> body \<noteq> [] \<and> dq \<notin> set body) segs'"
      by (simp add: scan_layout_def)
    show ?thesis
      unfolding extract_object quoted_matches_render[OF l] key_entries_of_layout[OF a]
      by simp
  qed
  from layout_exists[of s] B show ?thesis by blast
qed

theorem quoted_strings_captured_witness:
  \<open>extractVariablesFromStep ''Given "hi" and a stray " here'' = [(''key1'', JString ''hi'')]
   \<and> extractVariablesFromStep ''Say """a" then "b c" at 5'' 
       = [(''key1'', JString ''a''), (''key2'', JString ''b c''), (''num1'', JNumber (Finite 5))]\<close>
proof -
  have l1: \<open>scan_layout [(''Given '', ''hi'')] '' and a stray " here''\<close> by code_simp
  have r1: \<open>render [(''Given '', ''hi'')] '' and a stray " here''
     = ''Given "hi" and a stray " here''\<close> by (simp add: dq_def)
  have n1: \<open>number_matches ''Given "hi" and a stray " here'' = []\<close> by code_simp
  have l2: \<open>scan_layout [(''Say ""'', ''a''), ('' then '', ''b c'')] '' at 5''\<close> by code_simp
  have r2: \<open>render [(''Say ""'', ''a''), ('' then '', ''b c'')] '' at 5''
     = ''Say """a" then "b c" at 5''\<close> by (simp add: dq_def)
  have n2: \<open>number_matches ''Say """a" then "b c" at 5'' = [''5'']\<close> by code_simp
  have k: "nat_to_string (Suc 0) = ''1''" "nat_to_string (Suc (Suc 0)) = ''2''" by code_simp+
  have v: "Number ''5'' = Finite 5" by code_simp
  from quoted_strings_captured[of _ \<open>[(''Given '', ''hi'')]\<close> \<open>'' and a stray " here''\<close>] l1
  have \<open>extractVariablesFromStep (render [(''Given '', ''hi'')] '' and a stray " here'')
          = map (\<lambda>(i, body). (''key'' @ nat_to_string (Suc i), JString body))
              (enumerate 0 (map snd [(''Given '', ''hi'')]))
            @ map (\<lambda>(i, m). (''num'' @ nat_to_string (Suc i), JNumber (Number m)))
                (enumerate 0 (number_matches (render [(''Given '', ''hi'')] '' and a stray " here'')))\<close>
    by blast
  then have A: \<open>extractVariablesFromStep ''Given "hi" and a stray " here''
      = [(''key1'', JString ''hi'')]\<close>
    unfolding r1 n1 by (simp add: k)
  from quoted_strings_captured[of _ \<open>[(''Say ""'', ''a''), ('' then '', ''b c'')]\<close> \<open>'' at 5''\<close>] l2
  have \<open>extractVariablesFromStep (render [(''Say ""'', ''a''), ('' then '', ''b c'')] '' at 5'')
          = map (\<lambda>(i, body). (''key'' @ nat_to_string (Suc i), JString body))
              (enumerate 0 (map snd [(''Say ""'', ''a''), ('' then '', ''b c'')]))
            @ map (\<lambda>(i, m). (''num'' @ nat_to_string (Suc i), JNumber (Number m)))
                (enumerate 0 (number_matches (render [(''Say ""'', ''a''), ('' then '', ''b c'')] '' at 5'')))\<close>
    by blast
  then have B: \<open>extractVariablesFromStep ''Say """a" then "b c" at 5''
       = [(''key1'', JString ''a''), (''key2'', JString ''b c''), (''num1'', JNumber (Finite 5))]\<close>
    unfolding r2 n2 by (simp add: k v)
  from A B show ?thesis ..
qed

text \<open>The claim as stated fails for an empty pair of quotes: nothing is stored for it,
  and its closing quote can open the next match.\<close>

theorem quoted_strings_counterexample:
  \<open>extractVariablesFromStep ''Given ""'' = []
   \<and> extractVariablesFromStep ''Given "" and "x"'' = [(''key1'', JString '' and '')]\<close>
  by code_simp

section \<open>Properties of the generator\<close>

subsection \<open>Merging objects\<close>

text \<open>The shallow merge of a list of objects, in the words of the specification: the
  value of a key is its value in the last object that has the key.\<close>

fun shallow_merge :: "'v jsobj list \<Rightarrow> string \<Rightarrow> 'v option" where
  "shallow_merge [] k = None"
| "shallow_merge (obj # objs) k =
     (case shallow_merge objs k of Some v \<Rightarrow> Some v | None \<Rightarrow> map_of obj k)"

definition proto_free :: "'v jsobj \<Rightarrow> bool" where
  "proto_free obj = (''__proto__'' \<notin> fst ` set obj)"

lemma proto_free_obj_set: "proto_free obj \<Longrightarrow> proto_free (obj_set obj k v)"
  by (auto simp: proto_free_def obj_set_keys)

lemma proto_free_fold:
  "proto_free vars \<Longrightarrow>
   proto_free (foldl (\<lambda>vars (i, m). obj_set vars (kf i) (vf m)) vars (enumerate n ms))"
  by (induction ms arbitrary: vars n) (auto simp: proto_free_obj_set)

lemma proto_free_extract: "proto_free (extractVariablesFromStep s)"
proof -
  have e: "proto_free ([] :: jsval jsobj)" by (simp add: proto_free_def)
  show ?thesis
    unfolding extractVariablesFromStep_def Let_def
    by (intro proto_free_fold e)
qed

lemma assign_fold_get:
  "map_of (foldl (\<lambda>t k. case map_of src k of Some v \<Rightarrow> obj_set t k v | None \<Rightarrow> t) target ks) k'
     = (if k' \<in> set ks \<and> k' \<noteq> ''__proto__'' \<and> map_of src k' \<noteq> None
        then map_of src k' else map_of target k')"
  by (induction ks arbitrary: target) (auto simp: obj_set_get split: option.splits)

lemma obj_assign_get:
  assumes "proto_free src"
  shows "map_of (obj_assign target src) k
     = (case map_of src k of Some v \<Rightarrow> Some v | None \<Rightarrow> map_of target k)"
proof (cases "map_of src k")
  case None
  then show ?thesis by (simp add: obj_assign_def assign_fold_get)
next
  case (Some v)
  then have "(k, v) \<in> set src" by (rule map_of_SomeD)
  then have kin: "k \<in> fst ` set src" by force
  have "k \<noteq> ''__proto__''"
  proof
    assume "k = ''__proto__''"
    with kin assms show False by (simp add: proto_free_def)
  qed
  moreover note kin
  ultimately show ?thesis using Some by (simp add: obj_assign_def assign_fold_get obj_keys_set)
qed

lemma foldl_assign_get:
  "list_all proto_free objs \<Longrightarrow>
   map_of (foldl obj_assign target objs) k
     = (case shallow_merge objs k of Some v \<Rightarrow> Some v | None \<Rightarrow> map_of target k)"
  by (induction objs arbitrary: target) (auto simp: obj_assign_get split: option.splits)

lemma Object_assign_get:
  "list_all proto_free objs \<Longrightarrow> obj_get (Object_assign objs) k = shallow_merge objs k"
  by (simp add: Object_assign_def obj_get_def foldl_assign_get split: option.splits)

lemma extracted_merge:
  "obj_get (Object_assign (map extractVariablesFromStep ss)) k
     = shallow_merge (map extractVariablesFromStep ss) k"
  by (rule Object_assign_get) (simp add: list_all_iff proto_free_extract)

subsection \<open>The text of the output\<close>

lemma js_join_snoc: "js_join sep (xs @ [x]) = concat (map (\<lambda>l. l @ sep) xs) @ x"
  by (induction sep xs rule: js_join.induct) auto

lemma scenario_lines_total: "\<exists>ls. scenario_lines stringify scenario = Inr ls"
  by (cases scenario) (simp_all add: scenario_lines_def examples_of_def Let_def)

lemma scenarios_lines_total: "\<exists>ls. scenarios_lines stringify ss = Inr ls"
proof (induction ss)
  case Nil
  then show ?case by simp
next
  case (Cons s ss)
  from scenario_lines_total[of stringify s] obtain ls where "scenario_lines stringify s = Inr ls" ..
  with Cons show ?case by auto
qed

lemma background_lines_total: "\<exists>ls. background_lines stringify f = Inr ls"
  by (cases "background f") (simp_all add: background_lines_def steps_of_background_def)

lemma output_text:
  assumes "background_lines stringify f = Inr bg" and "scenarios_lines stringify (scenarios f) = Inr sc"
  shows "generateMochaTests stringify f
     = Inr (concat (map (\<lambda>l. l @ [CHR 0x0A])
              ([''const { mocha } = require('mocha');'', ''const { expect } = require('chai');'',
                [], ''describe('' @ [sq] @ ''Feature: '' @ feature_name f @ [sq] @ '', function () {'']
               @ bg @ sc))
            @ ''});'')"
proof -
  have "generated_lines stringify f
      = Inr (([''const { mocha } = require('mocha');'', ''const { expect } = require('chai');'',
                [], ''describe('' @ [sq] @ ''Feature: '' @ feature_name f @ [sq] @ '', function () {'']
               @ bg @ sc) @ [''});''])"
    using assms by (simp add: generated_lines_def preamble_def describe_line_def)
  then show ?thesis
    unfolding generateMochaTests_def by (simp only: sum.case js_join_snoc)
qed


subsection \<open>The background test case\<close>

text \<open>
  Claim C7. For a feature whose background exists and has at least one step, the
  generator returns the text made of these lines, each but the last ended by a line
  feed: the two preamble lines, an empty line, the line that opens the group, then one
  background test case, then the lines of the scenarios, then the closing line. The
  title of the background test case is \<open>Background: \<close> followed by the text of the first
  background step; its body holds every background step as a comment line, in order,
  an empty line and the \<open>data\<close> line, whose value is the shallow merge of the objects
  extracted from the steps, a later step's value winning on a key; the closing of the
  test case and an empty line follow. When the background is absent or has no step, the
  text has no background test case: the lines of the scenarios follow the opening of
  the group.
\<close>

theorem background_test_case:
  "(background f = Some b \<and> bg_steps b = s0 # others \<longrightarrow>
      (\<exists>data sc.
          scenarios_lines stringify (scenarios f) = Inr sc
          \<and> generateMochaTests stringify f
              = Inr (concat (map (\<lambda>l. l @ [CHR 0x0A])
                  ([''const { mocha } = require('mocha');'',
                    ''const { expect } = require('chai');'',
                    [],
                    ''describe('' @ [sq] @ ''Feature: '' @ feature_name f @ [sq] @ '', function () {'']
                   @ [''  it('' @ [sq] @ ''Background: '' @ s0 @ [sq] @ '', async () => {'']
                   @ map (\<lambda>s. ''    // '' @ s) (s0 # others)
                   @ [[], ''    const data = '' @ stringify data @ '';'', ''  });'', []]
                   @ sc))
                @ ''});'')
          \<and> (\<forall>k. obj_get data k
                = shallow_merge (map extractVariablesFromStep (s0 # others)) k)))
   \<and> (background f = None \<or> (\<exists>b. background f = Some b \<and> bg_steps b = []) \<longrightarrow>
      (\<exists>sc.
          scenarios_lines stringify (scenarios f) = Inr sc
          \<and> generateMochaTests stringify f
              = Inr (concat (map (\<lambda>l. l @ [CHR 0x0A])
                  ([''const { mocha } = require('mocha');'',
                    ''const { expect } = require('chai');'',
                    [],
                    ''describe('' @ [sq] @ ''Feature: '' @ feature_name f @ [sq] @ '', function () {'']
                   @ sc))
                @ ''});'')))"
proof -
  from scenarios_lines_total[of stringify "scenarios f"] obtain sc where
    sc: "scenarios_lines stringify (scenarios f) = Inr sc" ..
  have A: "\<exists>data sc.
          scenarios_lines stringify (scenarios f) = Inr sc
          \<and> generateMochaTests stringify f
              = Inr (concat (map (\<lambda>l. l @ [CHR 0x0A])
                  ([''const { mocha } = require('mocha');'',
                    ''const { expect } = require('chai');'',
                    [],
                    ''describe('' @ [sq] @ ''Feature: '' @ feature_name f @ [sq] @ '', function () {'']
                   @ [''  it('' @ [sq] @ ''Background: '' @ s0 @ [sq] @ '', async () => {'']
                   @ map (\<lambda>s. ''    // '' @ s) (s0 # others)
                   @ [[], ''    const data = '' @ stringify data @ '';'', ''  });'', []]
                   @ sc))
                @ ''});'')
          \<and> (\<forall>k. obj_get data k
                = shallow_merge (map extractVariablesFromStep (s0 # others)) k)"
    if h: "background f = Some b" "bg_steps b = s0 # others"
  proof -
    let ?data = "Object_assign (map extractVariablesFromStep (s0 # others))"
    have bg: "background_lines stringify f
        = Inr ([''  it('' @ [sq] @ ''Background: '' @ s0 @ [sq] @ '', async () => {'']
          @ map (\<lambda>s. ''    // '' @ s) (s0 # others)
          @ [[], ''    const data = '' @ stringify ?data @ '';'', ''  });'', []])"
      using h
      by (simp add: background_lines_def steps_of_background_def first_element_def comment_line_def)
    have m: "\<forall>k. obj_get ?data k
        = shallow_merge (map extractVariablesFromStep (s0 # others)) k"
      using extracted_merge[of "s0 # others"] by blast
    from output_text[OF bg sc] sc m show ?thesis
      by (intro exI[of _ ?data] exI[of _ sc]) simp
  qed
  have B: "\<exists>sc.
          scenarios_lines stringify (scenarios f) = Inr sc
          \<and> generateMochaTests stringify f
              = Inr (concat (map (\<lambda>l. l @ [CHR 0x0A])
                  ([''const { mocha } = require('mocha');'',
                    ''const { expect } = require('chai');'',
                    [],
                    ''describe('' @ [sq] @ ''Feature: '' @ feature_name f @ [sq] @ '', function () {'']
                   @ sc))
                @ ''});'')"
    if h: "background f = None \<or> (\<exists>b. background f = Some b \<and> bg_steps b = [])"
  proof -
    have bg: "background_lines stringify f = Inr []"
      using h by (auto simp: background_lines_def steps_of_background_def)
    from output_text[OF bg sc] sc show ?thesis by (intro exI[of _ sc]) simp
  qed
  from A B show ?thesis by blast
qed


theorem background_test_case_witness:
  \<open>\<forall>stringify. \<exists>data.
     generateMochaTests stringify
       \<lparr>feature_name = ''F'', description = [],
        background = Some \<lparr>bg_steps = [''Given "a"'', ''And "b" with 1'']\<rparr>, scenarios = []\<rparr>
     = Inr (''const { mocha } = require('mocha');'' @ [CHR 0x0A]
          @ ''const { expect } = require('chai');'' @ [CHR 0x0A]
          @ [CHR 0x0A]
          @ ''describe('Feature: F', function () {'' @ [CHR 0x0A]
          @ ''  it('Background: Given "a"', async () => {'' @ [CHR 0x0A]
          @ ''    // Given "a"'' @ [CHR 0x0A]
          @ ''    // And "b" with 1'' @ [CHR 0x0A]
          @ [CHR 0x0A]
          @ ''    const data = '' @ stringify data @ '';'' @ [CHR 0x0A]
          @ ''  });'' @ [CHR 0x0A]
          @ [CHR 0x0A]
          @ ''});'')
     \<and> obj_get data ''key1'' = Some (JString ''b'')
     \<and> obj_get data ''num1'' = Some (JNumber (Finite 1))
     \<and> obj_get data ''key2'' = None\<close>
proof
  fix stringify :: "jsval jsobj \<Rightarrow> string"
  let ?b = \<open>\<lparr>bg_steps = [''Given "a"'', ''And "b" with 1'']\<rparr>\<close>
  let ?f = "\<lparr>feature_name = ''F'', description = [], background = Some ?b, scenarios = []\<rparr>"
  have h: \<open>background ?f = Some ?b \<and> bg_steps ?b = ''Given "a"'' # [''And "b" with 1'']\<close> by simp
  have m1: \<open>shallow_merge (map extractVariablesFromStep (''Given "a"'' # [''And "b" with 1'']))
      ''key1'' = Some (JString ''b'')\<close> by code_simp
  have m2: \<open>shallow_merge (map extractVariablesFromStep (''Given "a"'' # [''And "b" with 1'']))
      ''num1'' = Some (JNumber (Finite 1))\<close> by code_simp
  have m3: \<open>shallow_merge (map extractVariablesFromStep (''Given "a"'' # [''And "b" with 1'']))
      ''key2'' = None\<close> by code_simp
  from background_test_case[of ?f ?b _ _ stringify] h obtain data sc where
    sc: "scenarios_lines stringify (scenarios ?f) = Inr sc"
    and t: \<open>generateMochaTests stringify ?f
              = Inr (concat (map (\<lambda>l. l @ [CHR 0x0A])
                  ([''const { mocha } = require('mocha');'',
                    ''const { expect } = require('chai');'',
                    [],
                    ''describe('' @ [sq] @ ''Feature: '' @ feature_name ?f @ [sq] @ '', function () {'']
                   @ [''  it('' @ [sq] @ ''Background: '' @ ''Given "a"'' @ [sq] @ '', async () => {'']
                   @ map (\<lambda>s. ''    // '' @ s) (''Given "a"'' # [''And "b" with 1''])
                   @ [[], ''    const data = '' @ stringify data @ '';'', ''  });'', []]
                   @ sc))
                @ ''});'')\<close>
    and k: \<open>\<forall>k. obj_get data k
       = shallow_merge (map extractVariablesFromStep (''Given "a"'' # [''And "b" with 1''])) k\<close>
    by blast
  from sc have "sc = []" by simp
  with t k m1 m2 m3 show \<open>\<exists>data.
     generateMochaTests stringify ?f
     = Inr (''const { mocha } = require('mocha');'' @ [CHR 0x0A]
          @ ''const { expect } = require('chai');'' @ [CHR 0x0A]
          @ [CHR 0x0A]
          @ ''describe('Feature: F', function () {'' @ [CHR 0x0A]
          @ ''  it('Background: Given "a"', async () => {'' @ [CHR 0x0A]
          @ ''    // Given "a"'' @ [CHR 0x0A]
          @ ''    // And "b" with 1'' @ [CHR 0x0A]
          @ [CHR 0x0A]
          @ ''    const data = '' @ stringify data @ '';'' @ [CHR 0x0A]
          @ ''  });'' @ [CHR 0x0A]
          @ [CHR 0x0A]
          @ ''});'')
     \<and> obj_get data ''key1'' = Some (JString ''b'')
     \<and> obj_get data ''num1'' = Some (JNumber (Finite 1))
     \<and> obj_get data ''key2'' = None\<close>
    by (intro exI[of _ data]) (simp add: sq_def)
qed

subsection \<open>The generator on every feature, and on the empty one\<close>

text \<open>
  Claim C8. The generator never fails: for every feature and every serialiser the
  background lines and the lines of all scenarios are produced (the two reads that
  could meet a missing value are guarded), and the output is the text of the two
  preamble lines, an empty line, the line that opens the group with the feature's name,
  these lines and the closing line, each line but the last ended by a line feed. For
  the empty feature (empty name, no background, no scenario) the output is exactly the
  preamble followed by the group opened with the empty name and closed at once.
\<close>

theorem generator_minimal_output:
  "(\<exists>bg sc. background_lines stringify f = Inr bg
       \<and> scenarios_lines stringify (scenarios f) = Inr sc
       \<and> generateMochaTests stringify f
           = Inr (concat (map (\<lambda>l. l @ [CHR 0x0A])
               ([''const { mocha } = require('mocha');'',
                 ''const { expect } = require('chai');'',
                 [],
                 ''describe('' @ [sq] @ ''Feature: '' @ feature_name f @ [sq] @ '', function () {'']
                @ bg @ sc))
             @ ''});''))
   \<and> generateMochaTests stringify
         \<lparr>feature_name = [], description = d, background = None, scenarios = []\<rparr>
       = Inr (''const { mocha } = require('mocha');'' @ [CHR 0x0A]
            @ ''const { expect } = require('chai');'' @ [CHR 0x0A]
            @ [CHR 0x0A]
            @ ''describe('Feature: ', function () {'' @ [CHR 0x0A]
            @ ''});'')"
proof -
  from background_lines_total[of stringify f] obtain bg where
    bg: "background_lines stringify f = Inr bg" ..
  from scenarios_lines_total[of stringify "scenarios f"] obtain sc where
    sc: "scenarios_lines stringify (scenarios f) = Inr sc" ..
  from output_text[OF bg sc] bg sc have A: "\<exists>bg sc. background_lines stringify f = Inr bg
       \<and> scenarios_lines stringify (scenarios f) = Inr sc
       \<and> generateMochaTests stringify f
           = Inr (concat (map (\<lambda>l. l @ [CHR 0x0A])
               ([''const { mocha } = require('mocha');'',
                 ''const { expect } = require('chai');'',
                 [],
                 ''describe('' @ [sq] @ ''Feature: '' @ feature_name f @ [sq] @ '', function () {'']
                @ bg @ sc))
             @ ''});'')" by blast
  let ?e = "\<lparr>feature_name = [], description = d, background = None, scenarios = []\<rparr>"
  have b0: "background_lines stringify ?e = Inr []" by (simp add: background_lines_def)
  have s0: "scenarios_lines stringify (scenarios ?e) = Inr []" by simp
  from output_text[OF b0 s0] have B: "generateMochaTests stringify ?e
       = Inr (''const { mocha } = require('mocha');'' @ [CHR 0x0A]
            @ ''const { expect } = require('chai');'' @ [CHR 0x0A]
            @ [CHR 0x0A]
            @ ''describe('Feature: ', function () {'' @ [CHR 0x0A]
            @ ''});'')" by (simp add: sq_def)
  from A B show ?thesis by blast
qed

theorem generator_minimal_output_witness:
  \<open>generateMochaTests (\<lambda>obj. concat (map fst obj))
     \<lparr>feature_name = ''F'', description = [], background = None,
      scenarios = [ScenarioModel ''s'' [''Given "x"''] [],
                   ScenarioOutlineModel ''o'' [''When y''] [[(''h'', ''c'')]] []]\<rparr>
   = Inr (''const { mocha } = require('mocha');'' @ [CHR 0x0A]
        @ ''const { expect } = require('chai');'' @ [CHR 0x0A]
        @ [CHR 0x0A]
        @ ''describe('Feature: F', function () {'' @ [CHR 0x0A]
        @ ''  it('s', async () => {'' @ [CHR 0x0A]
        @ ''    // Given "x"'' @ [CHR 0x0A]
        @ [CHR 0x0A]
        @ ''    const data = key1;'' @ [CHR 0x0A]
        @ ''  });'' @ [CHR 0x0A]
        @ [CHR 0x0A]
        @ ''  it('Scenario Outline: o', async () => {'' @ [CHR 0x0A]
        @ ''    // When y'' @ [CHR 0x0A]
        @ [CHR 0x0A]
        @ ''    const data = ['' @ [CHR 0x0A]
        @ ''      h,'' @ [CHR 0x0A]
        @ ''    ];'' @ [CHR 0x0A]
        @ ''  });'' @ [CHR 0x0A]
        @ [CHR 0x0A]
        @ ''});'')\<close>
proof -
  let ?st = "\<lambda>obj :: jsval jsobj. concat (map fst obj)"
  let ?f = \<open>\<lparr>feature_name = ''F'', description = [], background = None,
      scenarios = [ScenarioModel ''s'' [''Given "x"''] [],
                   ScenarioOutlineModel ''o'' [''When y''] [[(''h'', ''c'')]] []]\<rparr>\<close>
  have bg: "background_lines ?st ?f = Inr []" by (simp add: background_lines_def)
  have sc: \<open>scenarios_lines ?st (scenarios ?f)
      = Inr [''  it('s', async () => {'', ''    // Given "x"'', [], ''    const data = key1;'',
             ''  });'', [],
             ''  it('Scenario Outline: o', async () => {'', ''    // When y'', [],
             ''    const data = ['', ''      h,'', ''    ];'', ''  });'', []]\<close>
    by code_simp
  from generator_minimal_output[of ?st ?f] obtain bg' sc' where
    "background_lines ?st ?f = Inr bg'" "scenarios_lines ?st (scenarios ?f) = Inr sc'"
    and t: "generateMochaTests ?st ?f
           = Inr (concat (map (\<lambda>l. l @ [CHR 0x0A])
               ([''const { mocha } = require('mocha');'',
                 ''const { expect } = require('chai');'',
                 [],
                 ''describe('' @ [sq] @ ''Feature: '' @ feature_name ?f @ [sq] @ '', function () {'']
                @ bg' @ sc'))
             @ ''});'')"
    by blast
  with bg sc have "bg' = []" and \<open>sc' = [''  it('s', async () => {'', ''    // Given "x"'', [],
             ''    const data = key1;'', ''  });'', [],
             ''  it('Scenario Outline: o', async () => {'', ''    // When y'', [],
             ''    const data = ['', ''      h,'', ''    ];'', ''  });'', []]\<close>
    by simp_all
  with t show ?thesis by (simp add: sq_def)
qed

end
